theory Spec2Isabelle
  imports Main "HOL-Library.Word" "HOL-Library.Monad_Syntax"
begin

unbundle bit_operations_syntax

section \<open>The ISAAC engine of \<^verbatim>\<open>isaac.h\<close>\<close>

text \<open>
  The class template \<^verbatim>\<open>_isaac<Derived, Alpha, T>\<close> holds the members
  \<^verbatim>\<open>result_\<close>, \<^verbatim>\<open>memory_\<close>, \<^verbatim>\<open>a_\<close>, \<^verbatim>\<open>b_\<close>, \<^verbatim>\<open>c_\<close> and \<^verbatim>\<open>count_\<close>.
  A name cannot end in an underscore here, so the members carry the prefix \<open>e_\<close>.
  The two arrays have the type \<^verbatim>\<open>result_type[state_size]\<close>; they are lists whose length
  is \<open>state_size\<close> in every engine a C++ program can hold (predicate \<open>wf_engine\<close> below).
  \<^verbatim>\<open>count_\<close> is a \<^verbatim>\<open>std::size_t\<close>, taken as 64 bits wide; it is a natural number and the
  one place where it wraps (the decrement at zero) is written out.
\<close>

record 'w engine =
  e_result :: "'w list"
  e_memory :: "'w list"
  e_a :: 'w
  e_b :: 'w
  e_c :: 'w
  e_count :: nat

definition state_size :: "nat \<Rightarrow> nat" where
  "state_size Alpha = 2 ^ Alpha"

definition size_max :: nat where
  "size_max = 2 ^ 64 - 1"

definition default_seed :: "'a::len word" where
  "default_seed = 0"

definition wf_engine :: "nat \<Rightarrow> 'w engine \<Rightarrow> bool" where
  "wf_engine Alpha e \<longleftrightarrow>
     length (e_result e) = state_size Alpha \<and> length (e_memory e) = state_size Alpha"

text \<open>
  An array read or write at an index outside the array is undefined behaviour in C++.
  The model has no value for it: \<open>rd\<close> and \<open>wr\<close> return \<open>None\<close> there, and every function
  that indexes an array returns an \<open>option\<close>.
\<close>

definition rd :: "'w list \<Rightarrow> nat \<Rightarrow> 'w option" where
  "rd xs i = (if i < length xs then Some (xs ! i) else None)"

definition wr :: "'w list \<Rightarrow> nat \<Rightarrow> 'w \<Rightarrow> 'w list option" where
  "wr xs i v = (if i < length xs then Some (xs[i := v]) else None)"

type_synonym 'w regs = "'w \<times> 'w \<times> 'w \<times> 'w \<times> 'w \<times> 'w \<times> 'w \<times> 'w"

text \<open>
  The base class reaches \<^verbatim>\<open>_golden\<close>, \<^verbatim>\<open>_mix\<close> and \<^verbatim>\<open>_do_isaac\<close> of the derived class
  through \<^verbatim>\<open>static_cast<Derived*>(this)\<close>. The derived class is the record of these three.
\<close>

record 'w derived =
  d_golden :: 'w
  d_mix :: "'w regs \<Rightarrow> 'w regs"
  d_do_isaac :: "nat \<Rightarrow> 'w engine \<Rightarrow> 'w engine option"

subsection \<open>\<^verbatim>\<open>isaac<Alpha>\<close>: 32-bit words\<close>

definition golden32 :: "32 word" where
  "golden32 = 0x9e3779b9"

definition mix32 :: "32 word regs \<Rightarrow> 32 word regs" where
  "mix32 = (\<lambda>(a, b, c, d, e, f, g, h).
     let a = a XOR push_bit 11 b; d = d + a; b = b + c;
         b = b XOR drop_bit 2 c;  e = e + b; c = c + d;
         c = c XOR push_bit 8 d;  f = f + c; d = d + e;
         d = d XOR drop_bit 16 e; g = g + d; e = e + f;
         e = e XOR push_bit 10 f; h = h + e; f = f + g;
         f = f XOR drop_bit 4 g;  a = a + f; g = g + h;
         g = g XOR push_bit 8 h;  b = b + g; h = h + a;
         h = h XOR drop_bit 9 a;  c = c + h; a = a + b
     in (a, b, c, d, e, f, g, h))"

text \<open>
  \<^verbatim>\<open>ind(mm, x)\<close> adds the byte offset \<^verbatim>\<open>x & ((state_size - 1) << 2)\<close> to \<^verbatim>\<open>mm\<close> and reads a word
  there. The offset is a multiple of the word's size in bytes (\<open>2 ^ sh\<close>, \<open>sh = 2\<close> for 32-bit
  words and \<open>3\<close> for 64-bit words), so the word read is \<^verbatim>\<open>mm[offset / 2 ^ sh]\<close>.
\<close>

definition ind :: "nat \<Rightarrow> nat \<Rightarrow> 'a::len word list \<Rightarrow> 'a word \<Rightarrow> 'a word option" where
  "ind sh Alpha mm x = rd mm ((unat x AND push_bit sh (state_size Alpha - 1)) div 2 ^ sh)"

text \<open>
  The locals of \<^verbatim>\<open>_do_isaac\<close> that \<^verbatim>\<open>rngstep\<close> takes by reference: \<^verbatim>\<open>a\<close>, \<^verbatim>\<open>b\<close>, and the
  pointers \<^verbatim>\<open>m\<close>, \<^verbatim>\<open>m2\<close> (into \<^verbatim>\<open>memory_\<close>) and \<^verbatim>\<open>r\<close> (into \<^verbatim>\<open>result_\<close>) as indices,
  with the two arrays they point into. \<^verbatim>\<open>x\<close> and \<^verbatim>\<open>y\<close> are assigned before they are read
  in every call, so they are local to the step.
\<close>

record 'w rng =
  r_a :: 'w
  r_b :: 'w
  r_mm :: "'w list"
  r_res :: "'w list"
  r_m :: nat
  r_m2 :: nat
  r_r :: nat

definition rngstep32 :: "nat \<Rightarrow> 32 word \<Rightarrow> 32 word rng \<Rightarrow> 32 word rng option" where
  "rngstep32 Alpha mix s = do {
     x \<leftarrow> rd (r_mm s) (r_m s);
     v2 \<leftarrow> rd (r_mm s) (r_m2 s);
     let a = (r_a s XOR mix) + v2;
     i1 \<leftarrow> ind 2 Alpha (r_mm s) x;
     let y = i1 + a + r_b s;
     mm' \<leftarrow> wr (r_mm s) (r_m s) y;
     i2 \<leftarrow> ind 2 Alpha mm' (drop_bit Alpha y);
     let b = i2 + x;
     res' \<leftarrow> wr (r_res s) (r_r s) b;
     Some (s\<lparr>r_a := a, r_b := b, r_mm := mm', r_res := res',
             r_m := r_m s + 1, r_m2 := r_m2 s + 1, r_r := r_r s + 1\<rparr>)
   }"

definition body32 :: "nat \<Rightarrow> 32 word rng \<Rightarrow> 32 word rng option" where
  "body32 Alpha s = do {
     s \<leftarrow> rngstep32 Alpha (push_bit 13 (r_a s)) s;
     s \<leftarrow> rngstep32 Alpha (drop_bit 6 (r_a s)) s;
     s \<leftarrow> rngstep32 Alpha (push_bit 2 (r_a s)) s;
     rngstep32 Alpha (drop_bit 16 (r_a s)) s
   }"

lemma rngstep32_m: "rngstep32 Alpha mix s = Some s' \<Longrightarrow> r_m s' = r_m s + 1"
  by (auto simp: rngstep32_def Let_def split: bind_splits)

lemma body32_m: "body32 Alpha s = Some s' \<Longrightarrow> r_m s' = r_m s + 4"
  by (auto simp: body32_def split: bind_splits dest!: rngstep32_m)

lemma rngstep32_m2: "rngstep32 Alpha mix s = Some s' \<Longrightarrow> r_m2 s' = r_m2 s + 1"
  by (auto simp: rngstep32_def Let_def split: bind_splits)

lemma body32_m2: "body32 Alpha s = Some s' \<Longrightarrow> r_m2 s' = r_m2 s + 4"
  by (auto simp: body32_def split: bind_splits dest!: rngstep32_m2)

text \<open>The first loop of \<^verbatim>\<open>_do_isaac\<close>: \<^verbatim>\<open>for (...; m < mend; )\<close>.\<close>

function loop_m32 :: "nat \<Rightarrow> nat \<Rightarrow> 32 word rng \<Rightarrow> 32 word rng option" where
  "loop_m32 Alpha mend s =
     (if r_m s < mend then do { s' \<leftarrow> body32 Alpha s; loop_m32 Alpha mend s' } else Some s)"
  by pat_completeness auto
termination
  by (relation "measure (\<lambda>(Alpha, mend, s). mend - r_m s)") (auto dest: body32_m)

declare loop_m32.simps [simp del]

text \<open>The second loop: \<^verbatim>\<open>for (m2 = mm; m2 < mend; )\<close>.\<close>

function loop_m2_32 :: "nat \<Rightarrow> nat \<Rightarrow> 32 word rng \<Rightarrow> 32 word rng option" where
  "loop_m2_32 Alpha mend s =
     (if r_m2 s < mend then do { s' \<leftarrow> body32 Alpha s; loop_m2_32 Alpha mend s' } else Some s)"
  by pat_completeness auto
termination
  by (relation "measure (\<lambda>(Alpha, mend, s). mend - r_m2 s)") (auto dest: body32_m2)

declare loop_m2_32.simps [simp del]

definition do_isaac32 :: "nat \<Rightarrow> 32 word engine \<Rightarrow> 32 word engine option" where
  "do_isaac32 Alpha e = do {
     let c = e_c e + 1;
     let mend = state_size Alpha div 2;
     let s = \<lparr>r_a = e_a e, r_b = e_b e + c, r_mm = e_memory e, r_res = e_result e,
              r_m = 0, r_m2 = mend, r_r = 0\<rparr>;
     s \<leftarrow> loop_m32 Alpha mend s;
     s \<leftarrow> loop_m2_32 Alpha mend (s\<lparr>r_m2 := 0\<rparr>);
     Some (e\<lparr>e_result := r_res s, e_memory := r_mm s, e_a := r_a s, e_b := r_b s, e_c := c\<rparr>)
   }"

definition isaac :: "32 word derived" where
  "isaac = \<lparr>d_golden = golden32, d_mix = mix32, d_do_isaac = do_isaac32\<rparr>"

subsection \<open>\<^verbatim>\<open>isaac64<Alpha>\<close>: 64-bit words\<close>

definition golden64 :: "64 word" where
  "golden64 = 0x9e3779b97f4a7c13"

definition mix64 :: "64 word regs \<Rightarrow> 64 word regs" where
  "mix64 = (\<lambda>(a, b, c, d, e, f, g, h).
     let a = a - e; f = f XOR drop_bit 9 h;  h = h + a;
         b = b - f; g = g XOR push_bit 9 a;  a = a + b;
         c = c - g; h = h XOR drop_bit 23 b; b = b + c;
         d = d - h; a = a XOR push_bit 15 c; c = c + d;
         e = e - a; b = b XOR drop_bit 14 d; d = d + e;
         f = f - b; c = c XOR push_bit 20 e; e = e + f;
         g = g - c; d = d XOR drop_bit 17 f; f = f + g;
         h = h - d; e = e XOR push_bit 14 g; g = g + h
     in (a, b, c, d, e, f, g, h))"

definition rngstep64 :: "nat \<Rightarrow> 64 word \<Rightarrow> 64 word rng \<Rightarrow> 64 word rng option" where
  "rngstep64 Alpha mix s = do {
     x \<leftarrow> rd (r_mm s) (r_m s);
     v2 \<leftarrow> rd (r_mm s) (r_m2 s);
     let a = mix + v2;
     i1 \<leftarrow> ind 3 Alpha (r_mm s) x;
     let y = i1 + a + r_b s;
     mm' \<leftarrow> wr (r_mm s) (r_m s) y;
     i2 \<leftarrow> ind 3 Alpha mm' (drop_bit Alpha y);
     let b = i2 + x;
     res' \<leftarrow> wr (r_res s) (r_r s) b;
     Some (s\<lparr>r_a := a, r_b := b, r_mm := mm', r_res := res',
             r_m := r_m s + 1, r_m2 := r_m2 s + 1, r_r := r_r s + 1\<rparr>)
   }"

definition body64 :: "nat \<Rightarrow> 64 word rng \<Rightarrow> 64 word rng option" where
  "body64 Alpha s = do {
     s \<leftarrow> rngstep64 Alpha (NOT (r_a s XOR push_bit 21 (r_a s))) s;
     s \<leftarrow> rngstep64 Alpha (r_a s XOR drop_bit 5 (r_a s)) s;
     s \<leftarrow> rngstep64 Alpha (r_a s XOR push_bit 12 (r_a s)) s;
     rngstep64 Alpha (r_a s XOR drop_bit 33 (r_a s)) s
   }"

lemma rngstep64_m: "rngstep64 Alpha mix s = Some s' \<Longrightarrow> r_m s' = r_m s + 1"
  by (auto simp: rngstep64_def Let_def split: bind_splits)

lemma body64_m: "body64 Alpha s = Some s' \<Longrightarrow> r_m s' = r_m s + 4"
  by (auto simp: body64_def split: bind_splits dest!: rngstep64_m)

lemma rngstep64_m2: "rngstep64 Alpha mix s = Some s' \<Longrightarrow> r_m2 s' = r_m2 s + 1"
  by (auto simp: rngstep64_def Let_def split: bind_splits)

lemma body64_m2: "body64 Alpha s = Some s' \<Longrightarrow> r_m2 s' = r_m2 s + 4"
  by (auto simp: body64_def split: bind_splits dest!: rngstep64_m2)

function loop_m64 :: "nat \<Rightarrow> nat \<Rightarrow> 64 word rng \<Rightarrow> 64 word rng option" where
  "loop_m64 Alpha mend s =
     (if r_m s < mend then do { s' \<leftarrow> body64 Alpha s; loop_m64 Alpha mend s' } else Some s)"
  by pat_completeness auto
termination
  by (relation "measure (\<lambda>(Alpha, mend, s). mend - r_m s)") (auto dest: body64_m)

declare loop_m64.simps [simp del]

function loop_m2_64 :: "nat \<Rightarrow> nat \<Rightarrow> 64 word rng \<Rightarrow> 64 word rng option" where
  "loop_m2_64 Alpha mend s =
     (if r_m2 s < mend then do { s' \<leftarrow> body64 Alpha s; loop_m2_64 Alpha mend s' } else Some s)"
  by pat_completeness auto
termination
  by (relation "measure (\<lambda>(Alpha, mend, s). mend - r_m2 s)") (auto dest: body64_m2)

declare loop_m2_64.simps [simp del]

definition do_isaac64 :: "nat \<Rightarrow> 64 word engine \<Rightarrow> 64 word engine option" where
  "do_isaac64 Alpha e = do {
     let c = e_c e + 1;
     let mend = state_size Alpha div 2;
     let s = \<lparr>r_a = e_a e, r_b = e_b e + c, r_mm = e_memory e, r_res = e_result e,
              r_m = 0, r_m2 = mend, r_r = 0\<rparr>;
     s \<leftarrow> loop_m64 Alpha mend s;
     s \<leftarrow> loop_m2_64 Alpha mend (s\<lparr>r_m2 := 0\<rparr>);
     Some (e\<lparr>e_result := r_res s, e_memory := r_mm s, e_a := r_a s, e_b := r_b s, e_c := c\<rparr>)
   }"

definition isaac64 :: "64 word derived" where
  "isaac64 = \<lparr>d_golden = golden64, d_mix = mix64, d_do_isaac = do_isaac64\<rparr>"

subsection \<open>The base class \<^verbatim>\<open>_isaac\<close>\<close>

text \<open>\<^verbatim>\<open>for (std::size_t i = i0; i < n; ++i) body\<close>, on the state the body changes.\<close>

function for_upto :: "nat \<Rightarrow> nat \<Rightarrow> (nat \<Rightarrow> 's \<Rightarrow> 's option) \<Rightarrow> 's \<Rightarrow> 's option" where
  "for_upto i n body st =
     (if i < n then do { st' \<leftarrow> body i st; for_upto (i + 1) n body st' } else Some st)"
  by pat_completeness auto
termination
  by (relation "measure (\<lambda>(i, n, body, st). n - i)") auto

declare for_upto.simps [simp del]

definition rd8 :: "'w list \<Rightarrow> nat \<Rightarrow> 'w regs option" where
  "rd8 xs i = do {
     a \<leftarrow> rd xs i; b \<leftarrow> rd xs (i + 1); c \<leftarrow> rd xs (i + 2); d \<leftarrow> rd xs (i + 3);
     e \<leftarrow> rd xs (i + 4); f \<leftarrow> rd xs (i + 5); g \<leftarrow> rd xs (i + 6); h \<leftarrow> rd xs (i + 7);
     Some (a, b, c, d, e, f, g, h)
   }"

definition wr8 :: "'w list \<Rightarrow> nat \<Rightarrow> 'w regs \<Rightarrow> 'w list option" where
  "wr8 xs i = (\<lambda>(a, b, c, d, e, f, g, h). do {
     xs \<leftarrow> wr xs i a; xs \<leftarrow> wr xs (i + 1) b; xs \<leftarrow> wr xs (i + 2) c; xs \<leftarrow> wr xs (i + 3) d;
     xs \<leftarrow> wr xs (i + 4) e; xs \<leftarrow> wr xs (i + 5) f; xs \<leftarrow> wr xs (i + 6) g; wr xs (i + 7) h
   })"

definition add8 :: "'a::len word regs \<Rightarrow> 'a word regs \<Rightarrow> 'a word regs" where
  "add8 = (\<lambda>(a, b, c, d, e, f, g, h) (a', b', c', d', e', f', g', h').
     (a + a', b + b', c + c', d + d', e + e', f + f', g + g', h + h'))"

text \<open>
  The first pass of \<^verbatim>\<open>init\<close>, \<^verbatim>\<open>for (i = 0; i < state_size; i += 8)\<close>: adds eight words of
  \<^verbatim>\<open>result_\<close> to the registers, mixes, and stores the registers in \<^verbatim>\<open>memory_\<close>.
\<close>

function init_pass1 ::
  "'a::len word derived \<Rightarrow> nat \<Rightarrow> nat \<Rightarrow> 'a word regs \<Rightarrow> 'a word engine
     \<Rightarrow> ('a word regs \<times> 'a word engine) option" where
  "init_pass1 D Alpha i rg e =
     (if i < state_size Alpha then do {
        v \<leftarrow> rd8 (e_result e) i;
        let rg = d_mix D (add8 rg v);
        mm \<leftarrow> wr8 (e_memory e) i rg;
        init_pass1 D Alpha (i + 8) rg (e\<lparr>e_memory := mm\<rparr>)
      } else Some (rg, e))"
  by pat_completeness auto
termination
  by (relation "measure (\<lambda>(D, Alpha, i, rg, e). state_size Alpha - i)") auto

declare init_pass1.simps [simp del]

text \<open>The second pass reads the eight words from \<^verbatim>\<open>memory_\<close> instead.\<close>

function init_pass2 ::
  "'a::len word derived \<Rightarrow> nat \<Rightarrow> nat \<Rightarrow> 'a word regs \<Rightarrow> 'a word engine
     \<Rightarrow> ('a word regs \<times> 'a word engine) option" where
  "init_pass2 D Alpha i rg e =
     (if i < state_size Alpha then do {
        v \<leftarrow> rd8 (e_memory e) i;
        let rg = d_mix D (add8 rg v);
        mm \<leftarrow> wr8 (e_memory e) i rg;
        init_pass2 D Alpha (i + 8) rg (e\<lparr>e_memory := mm\<rparr>)
      } else Some (rg, e))"
  by pat_completeness auto
termination
  by (relation "measure (\<lambda>(D, Alpha, i, rg, e). state_size Alpha - i)") auto

declare init_pass2.simps [simp del]

definition init :: "'a::len word derived \<Rightarrow> nat \<Rightarrow> 'a word engine \<Rightarrow> 'a word engine option" where
  "init D Alpha e = do {
     let g = d_golden D;
     let rg = (g, g, g, g, g, g, g, g);
     let e = e\<lparr>e_a := 0, e_b := 0, e_c := 0\<rparr>;
     let rg = (d_mix D ^^ 4) rg;
     (rg, e) \<leftarrow> init_pass1 D Alpha 0 rg e;
     (rg, e) \<leftarrow> init_pass2 D Alpha 0 rg e;
     e \<leftarrow> d_do_isaac D Alpha e;
     Some (e\<lparr>e_count := state_size Alpha\<rparr>)
   }"

text \<open>\<^verbatim>\<open>seed(result_type s = default_seed)\<close>.\<close>

definition seed :: "'a::len word derived \<Rightarrow> nat \<Rightarrow> 'a word \<Rightarrow> 'a word engine \<Rightarrow> 'a word engine option" where
  "seed D Alpha s e = do {
     res \<leftarrow> for_upto 0 (state_size Alpha) (\<lambda>i res. wr res i s) (e_result e);
     init D Alpha (e\<lparr>e_result := res\<rparr>)
   }"

text \<open>
  \<^verbatim>\<open>seed(Sseq& q)\<close>. The seed sequence is not part of the engine: \<open>seed_array\<close> is what
  \<^verbatim>\<open>q.generate\<close> wrote into the local \<^verbatim>\<open>std::array<result_type, state_size>\<close>.
\<close>

definition seed_sseq ::
  "'a::len word derived \<Rightarrow> nat \<Rightarrow> 'a word list \<Rightarrow> 'a word engine \<Rightarrow> 'a word engine option" where
  "seed_sseq D Alpha seed_array e = do {
     res \<leftarrow> for_upto 0 (state_size Alpha)
              (\<lambda>i res. do { v \<leftarrow> rd seed_array i; wr res i v }) (e_result e);
     init D Alpha (e\<lparr>e_result := res\<rparr>)
   }"

text \<open>
  \<^verbatim>\<open>seed(Iter begin, Iter end)\<close>. The range is the list \<open>xs\<close> of words of an unsigned integral
  type, \<^verbatim>\<open>begin\<close> is index \<open>0\<close>, \<^verbatim>\<open>end\<close> is \<open>length xs\<close>, and \<^verbatim>\<open>*it\<close> at \<^verbatim>\<open>end\<close> is undefined.
  The assignment to \<^verbatim>\<open>result_[i]\<close> converts to \<^verbatim>\<open>result_type\<close>.
\<close>

definition seed_range ::
  "'a::len word derived \<Rightarrow> nat \<Rightarrow> 'b::len word list \<Rightarrow> 'a word engine \<Rightarrow> 'a word engine option" where
  "seed_range D Alpha xs e = do {
     (it, res) \<leftarrow> for_upto 0 (state_size Alpha)
        (\<lambda>i (it, res). do {
           let it = (if it = length xs then 0 else it);
           v \<leftarrow> rd xs it;
           res \<leftarrow> wr res i (ucast v);
           Some (it + 1, res)
         }) (0, e_result e);
     init D Alpha (e\<lparr>e_result := res\<rparr>)
   }"

text \<open>
  The constructors call the matching \<^verbatim>\<open>seed\<close> on the object under construction, whose
  members are not initialised: \<open>u\<close> is that storage, with whatever it holds.
\<close>

definition construct :: "'a::len word derived \<Rightarrow> nat \<Rightarrow> 'a word \<Rightarrow> 'a word engine \<Rightarrow> 'a word engine option" where
  "construct D Alpha s u = seed D Alpha s u"

definition construct_range ::
  "'a::len word derived \<Rightarrow> nat \<Rightarrow> 'b::len word list \<Rightarrow> 'a word engine \<Rightarrow> 'a word engine option" where
  "construct_range D Alpha xs u = seed_range D Alpha xs u"

text \<open>The copy constructor \<^verbatim>\<open>_isaac(const _isaac& rhs)\<close>.\<close>

definition copy :: "nat \<Rightarrow> 'w engine \<Rightarrow> 'w engine \<Rightarrow> 'w engine option" where
  "copy Alpha rhs u = do {
     (res, mm) \<leftarrow> for_upto 0 (state_size Alpha)
        (\<lambda>i (res, mm). do {
           v \<leftarrow> rd (e_result rhs) i;
           res \<leftarrow> wr res i v;
           w \<leftarrow> rd (e_memory rhs) i;
           mm \<leftarrow> wr mm i w;
           Some (res, mm)
         }) (e_result u, e_memory u);
     Some (u\<lparr>e_result := res, e_memory := mm,
             e_a := e_a rhs, e_b := e_b rhs, e_c := e_c rhs, e_count := e_count rhs\<rparr>)
   }"

text \<open>
  \<^verbatim>\<open>operator()()\<close>:
  \<^verbatim>\<open>return (!count_--) ? (do_isaac(), count_ = state_size - 1, result_[count_]) : result_[count_];\<close>
  The decrement of a zero \<^verbatim>\<open>count_\<close> wraps to the largest \<^verbatim>\<open>size_t\<close>.
\<close>

definition operator_call ::
  "'a::len word derived \<Rightarrow> nat \<Rightarrow> 'a word engine \<Rightarrow> ('a word \<times> 'a word engine) option" where
  "operator_call D Alpha e =
     (if e_count e = 0 then do {
        e \<leftarrow> d_do_isaac D Alpha (e\<lparr>e_count := size_max\<rparr>);
        let e = e\<lparr>e_count := state_size Alpha - 1\<rparr>;
        w \<leftarrow> rd (e_result e) (e_count e);
        Some (w, e)
      } else do {
        let e = e\<lparr>e_count := e_count e - 1\<rparr>;
        w \<leftarrow> rd (e_result e) (e_count e);
        Some (w, e)
      })"

lemma unat_dec_less: "z \<noteq> 0 \<Longrightarrow> unat (z - 1) < unat (z :: 'a::len word)"
  by (simp add: unat_minus_one unat_gt_0)

text \<open>\<^verbatim>\<open>discard(unsigned long long z)\<close>: \<^verbatim>\<open>for (; z; --z) operator()();\<close>\<close>

function discard ::
  "'a::len word derived \<Rightarrow> nat \<Rightarrow> 64 word \<Rightarrow> 'a word engine \<Rightarrow> 'a word engine option" where
  "discard D Alpha z e =
     (if z \<noteq> 0 then do { (w, e') \<leftarrow> operator_call D Alpha e; discard D Alpha (z - 1) e' }
      else Some e)"
  by pat_completeness auto
termination
  by (relation "measure (\<lambda>(D, Alpha, z, e). unat z)") (auto simp: unat_dec_less)

declare discard.simps [simp del]

text \<open>
  \<^verbatim>\<open>operator==\<close>: the registers and \<^verbatim>\<open>count_\<close> first, then the two arrays slot by slot,
  leaving the loop at the first difference.
\<close>

function eq_loop :: "nat \<Rightarrow> nat \<Rightarrow> 'w engine \<Rightarrow> 'w engine \<Rightarrow> bool" where
  "eq_loop Alpha i x y =
     (if i < state_size Alpha then
        (if e_result x ! i \<noteq> e_result y ! i \<or> e_memory x ! i \<noteq> e_memory y ! i then False
         else eq_loop Alpha (i + 1) x y)
      else True)"
  by pat_completeness auto
termination
  by (relation "measure (\<lambda>(Alpha, i, x, y). state_size Alpha - i)") auto

declare eq_loop.simps [simp del]

definition operator_eq :: "nat \<Rightarrow> 'w engine \<Rightarrow> 'w engine \<Rightarrow> bool" where
  "operator_eq Alpha x y =
     (if e_a x \<noteq> e_a y \<or> e_b x \<noteq> e_b y \<or> e_c x \<noteq> e_c y \<or> e_count x \<noteq> e_count y then False
      else eq_loop Alpha 0 x y)"

subsection \<open>Text output and input\<close>

text \<open>
  \<^verbatim>\<open>operator<<\<close> and \<^verbatim>\<open>operator>>\<close> work on the streams of the C++ standard library, which is
  not part of \<^verbatim>\<open>isaac.h\<close>. The streams are modelled as far as the two operators use them, for
  the classic locale and a stream in good state:
  an output stream is the characters written so far and the field width \<^verbatim>\<open>os.width()\<close>, which
  pads the next formatted output and is then reset to zero;
  an input stream is the characters not yet read and the flag that \<^verbatim>\<open>is.fail()\<close> tests.
\<close>

record ostream =
  os_buf :: string
  os_width :: nat

record istream =
  is_buf :: string
  is_fail :: bool

definition digit_char :: "nat \<Rightarrow> char" where
  "digit_char d = ''0123456789'' ! d"

function dec :: "nat \<Rightarrow> string" where
  "dec n = (if n < 10 then [digit_char n] else dec (n div 10) @ [digit_char (n mod 10)])"
  by pat_completeness auto
termination
  by (relation "measure (\<lambda>n. n)") auto

declare dec.simps [simp del]

text \<open>
  \<^verbatim>\<open>os << n\<close> for an unsigned integer, under the flags \<^verbatim>\<open>dec | left\<close> and the fill character
  \<^verbatim>\<open>' '\<close> that \<^verbatim>\<open>operator<<\<close> sets: the decimal digits, then spaces up to the field width.
  \<^verbatim>\<open>os << sp\<close> for a character is padded in the same way.
\<close>

definition put_num :: "nat \<Rightarrow> ostream \<Rightarrow> ostream" where
  "put_num n os =
     \<lparr>os_buf = os_buf os @ dec n @ replicate (os_width os - length (dec n)) CHR '' '',
      os_width = 0\<rparr>"

definition put_char :: "char \<Rightarrow> ostream \<Rightarrow> ostream" where
  "put_char c os =
     \<lparr>os_buf = os_buf os @ c # replicate (os_width os - 1) CHR '' '', os_width = 0\<rparr>"

definition operator_out :: "nat \<Rightarrow> ostream \<Rightarrow> 'a::len word engine \<Rightarrow> ostream" where
  "operator_out Alpha os x =
     (let sp = CHR '' '';
          os = put_num (e_count x) os;
          os = fold (\<lambda>i os. put_num (unat (e_result x ! i)) (put_char sp os))
                 [0..<state_size Alpha] os;
          os = fold (\<lambda>i os. put_num (unat (e_memory x ! i)) (put_char sp os))
                 [0..<state_size Alpha] os;
          os = put_num (unat (e_a x)) (put_char sp os);
          os = put_num (unat (e_b x)) (put_char sp os);
          os = put_num (unat (e_c x)) (put_char sp os)
      in os)"

text \<open>The text an engine is written as, on a stream that holds nothing yet.\<close>

definition serialize :: "nat \<Rightarrow> nat \<Rightarrow> 'a::len word engine \<Rightarrow> string" where
  "serialize Alpha width x = os_buf (operator_out Alpha \<lparr>os_buf = [], os_width = width\<rparr> x)"

definition is_space :: "char \<Rightarrow> bool" where
  "is_space c \<longleftrightarrow> c = CHR '' '' \<or> c = CHR 0x09 \<or> c = CHR 0x0A \<or> c = CHR 0x0B
     \<or> c = CHR 0x0C \<or> c = CHR 0x0D"

definition is_digit :: "char \<Rightarrow> bool" where
  "is_digit c \<longleftrightarrow> c \<in> set ''0123456789''"

definition digit_val :: "char \<Rightarrow> nat" where
  "digit_val c = of_char c - 48"

definition digits_val :: "string \<Rightarrow> nat" where
  "digits_val ds = foldl (\<lambda>v c. 10 * v + digit_val c) 0 ds"

text \<open>
  \<^verbatim>\<open>is >> v\<close> for an unsigned integer type with largest value \<open>mx\<close>, under the flags
  \<^verbatim>\<open>dec | skipws\<close> that \<^verbatim>\<open>operator>>\<close> sets. A stream that has failed reads nothing. Otherwise
  white space is skipped, then an optional sign and the longest run of decimal digits are
  taken. With no digit, or a number above \<open>mx\<close>, the stream fails. A number after \<^verbatim>\<open>-\<close> is
  negated in the unsigned type (libc++, whose internals \<^verbatim>\<open>isaac.h\<close> uses). The characters
  after the last digit stay in the stream.
\<close>

definition get_num :: "nat \<Rightarrow> istream \<Rightarrow> istream \<times> nat option" where
  "get_num mx is =
     (if is_fail is then (is, None)
      else
        let s = dropWhile is_space (is_buf is);
            neg = (s \<noteq> [] \<and> hd s = CHR ''-'');
            s = (if s \<noteq> [] \<and> (hd s = CHR ''+'' \<or> hd s = CHR ''-'') then tl s else s);
            ds = takeWhile is_digit s;
            rest = dropWhile is_digit s;
            v = digits_val ds
        in if ds = [] \<or> mx < v then (\<lparr>is_buf = rest, is_fail = True\<rparr>, None)
           else (\<lparr>is_buf = rest, is_fail = False\<rparr>,
                 Some (if neg then (mx + 1 - v) mod (mx + 1) else v)))"

definition get_size :: "istream \<Rightarrow> istream \<times> nat option" where
  "get_size is = get_num size_max is"

definition word_max :: "nat \<Rightarrow> nat" where
  "word_max wd = 2 ^ wd - 1"

definition get_word :: "istream \<Rightarrow> istream \<times> 'a::len word option" where
  "get_word is =
     (case get_num (word_max LENGTH('a)) is of (is', v) \<Rightarrow> (is', map_option of_nat v))"

text \<open>
  The two reading loops of \<^verbatim>\<open>operator>>\<close>:
  \<^verbatim>\<open>for (i = 0; i < state_size; ++i) { is >> tmp[i]; if (is.fail()) { failed = true; break; } }\<close>.
  \<open>tmp\<close> holds the slots of the local array written so far; \<open>None\<close> stands for
  \<^verbatim>\<open>failed = true\<close>.
\<close>

function read_words ::
  "nat \<Rightarrow> nat \<Rightarrow> istream \<Rightarrow> 'a::len word list \<Rightarrow> istream \<times> 'a word list option" where
  "read_words Alpha i is tmp =
     (if i < state_size Alpha then
        (case get_word is of
           (is', None) \<Rightarrow> (is', None)
         | (is', Some v) \<Rightarrow> read_words Alpha (i + 1) is' (tmp @ [v]))
      else (is, Some tmp))"
  by pat_completeness auto
termination
  by (relation "measure (\<lambda>(Alpha, i, is, tmp). state_size Alpha - i)") auto

declare read_words.simps [simp del]

text \<open>
  \<^verbatim>\<open>operator>>\<close>: the six groups of fields are read into locals, each group only if nothing
  has failed before; the engine is assigned only when all were read, and \<^verbatim>\<open>failbit\<close> is set
  otherwise.
\<close>

definition commit ::
  "nat \<Rightarrow> nat \<Rightarrow> 'w list \<Rightarrow> 'w list \<Rightarrow> 'w \<Rightarrow> 'w \<Rightarrow> 'w \<Rightarrow> 'w engine \<Rightarrow> 'w engine" where
  "commit Alpha tmp_count tmp_result tmp_memory tmp_a tmp_b tmp_c x =
     (let x = fold (\<lambda>i x. x\<lparr>e_result := (e_result x)[i := tmp_result ! i],
                              e_memory := (e_memory x)[i := tmp_memory ! i]\<rparr>)
                [0..<state_size Alpha] x
      in x\<lparr>e_a := tmp_a, e_b := tmp_b, e_c := tmp_c, e_count := tmp_count\<rparr>)"

definition set_failbit :: "istream \<Rightarrow> istream" where
  "set_failbit is = is\<lparr>is_fail := True\<rparr>"

definition operator_in :: "nat \<Rightarrow> istream \<Rightarrow> 'a::len word engine \<Rightarrow> istream \<times> 'a word engine" where
  "operator_in Alpha is x =
     (case get_size is of
        (is, None) \<Rightarrow> (set_failbit is, x)
      | (is, Some tmp_count) \<Rightarrow>
     (case read_words Alpha 0 is [] of
        (is, None) \<Rightarrow> (set_failbit is, x)
      | (is, Some tmp_result) \<Rightarrow>
     (case read_words Alpha 0 is [] of
        (is, None) \<Rightarrow> (set_failbit is, x)
      | (is, Some tmp_memory) \<Rightarrow>
     (case get_word is of
        (is, None) \<Rightarrow> (set_failbit is, x)
      | (is, Some tmp_a) \<Rightarrow>
     (case get_word is of
        (is, None) \<Rightarrow> (set_failbit is, x)
      | (is, Some tmp_b) \<Rightarrow>
     (case get_word is of
        (is, None) \<Rightarrow> (set_failbit is, x)
      | (is, Some tmp_c) \<Rightarrow>
          (is, commit Alpha tmp_count tmp_result tmp_memory tmp_a tmp_b tmp_c x)))))))"

subsection \<open>Notions used in the statements and proofs\<close>

text \<open>
  \<open>next_times n\<close> is \<^verbatim>\<open>operator()\<close> called \<open>n\<close> times in a row, each returned word dropped:
  what the specification says \<^verbatim>\<open>discard(n)\<close> amounts to.
\<close>

fun next_times ::
  "'a::len word derived \<Rightarrow> nat \<Rightarrow> nat \<Rightarrow> 'a word engine \<Rightarrow> 'a word engine option" where
  "next_times D Alpha 0 e = Some e"
| "next_times D Alpha (Suc n) e =
     (case operator_call D Alpha e of None \<Rightarrow> None | Some (w, e') \<Rightarrow> next_times D Alpha n e')"

text \<open>
  The first \<open>n\<close> words of the range \<open>xs\<close> read over and over from its start, each converted
  to \<^verbatim>\<open>result_type\<close>.
\<close>

definition cyc :: "nat \<Rightarrow> 'b::len word list \<Rightarrow> 'a::len word list" where
  "cyc n xs = map (\<lambda>k. ucast (xs ! (k mod length xs))) [0..<n]"

text \<open>
  The cursor invariant of the data model, \<open>0 \<le> count \<le> state_size\<close>, and what it means for a
  derived class \<open>D\<close> that the public operations establish and keep it: each \<^verbatim>\<open>seed\<close> returns
  with \<^verbatim>\<open>count_ = state_size\<close>; \<^verbatim>\<open>operator()\<close>, \<^verbatim>\<open>discard\<close> and the copy constructor return
  an engine that satisfies the invariant when they are given one; and \<^verbatim>\<open>operator()\<close> on
  \<^verbatim>\<open>count_ = 0\<close> returns a word of the \<^verbatim>\<open>result_\<close> that the generation step has just filled.
\<close>

definition count_ok :: "nat \<Rightarrow> 'w engine \<Rightarrow> bool" where
  "count_ok Alpha e \<longleftrightarrow> 0 \<le> e_count e \<and> e_count e \<le> state_size Alpha"

definition count_invariant :: "'a::len word derived \<Rightarrow> nat \<Rightarrow> bool" where
  "count_invariant D Alpha \<longleftrightarrow>
     (\<forall>e s. wf_engine Alpha e \<longrightarrow>
        (\<exists>e'. seed D Alpha s e = Some e' \<and> wf_engine Alpha e' \<and> e_count e' = state_size Alpha
           \<and> count_ok Alpha e')) \<and>
     (\<forall>e seed_array. wf_engine Alpha e \<and> length seed_array = state_size Alpha \<longrightarrow>
        (\<exists>e'. seed_sseq D Alpha seed_array e = Some e' \<and> wf_engine Alpha e'
           \<and> e_count e' = state_size Alpha \<and> count_ok Alpha e')) \<and>
     (\<forall>e (xs :: 'a word list). wf_engine Alpha e \<and> xs \<noteq> [] \<longrightarrow>
        (\<exists>e'. seed_range D Alpha xs e = Some e' \<and> wf_engine Alpha e'
           \<and> e_count e' = state_size Alpha \<and> count_ok Alpha e')) \<and>
     (\<forall>e. wf_engine Alpha e \<and> count_ok Alpha e \<longrightarrow>
        (\<exists>w e'. operator_call D Alpha e = Some (w, e') \<and> wf_engine Alpha e' \<and> count_ok Alpha e')) \<and>
     (\<forall>e z. wf_engine Alpha e \<and> count_ok Alpha e \<longrightarrow>
        (\<exists>e'. discard D Alpha z e = Some e' \<and> wf_engine Alpha e' \<and> count_ok Alpha e')) \<and>
     (\<forall>(e :: 'a word engine) u. wf_engine Alpha e \<and> wf_engine Alpha u \<and> count_ok Alpha e \<longrightarrow>
        (\<exists>e'. copy Alpha e u = Some e' \<and> wf_engine Alpha e' \<and> count_ok Alpha e')) \<and>
     (\<forall>e. wf_engine Alpha e \<and> e_count e = 0 \<longrightarrow>
        (\<exists>g. d_do_isaac D Alpha e = Some g \<and>
           operator_call D Alpha e
             = Some (e_result g ! (state_size Alpha - 1), g\<lparr>e_count := state_size Alpha - 1\<rparr>)))"

text \<open>Two small engines with \<open>Alpha = 3\<close> (eight words), for concrete instances.\<close>

definition ex32 :: "32 word engine" where
  "ex32 = \<lparr>e_result = [1, 2, 3, 4, 5, 6, 7, 8], e_memory = [11, 12, 13, 14, 15, 16, 17, 18],
           e_a = 1, e_b = 2, e_c = 3, e_count = 5\<rparr>"

definition ex64 :: "64 word engine" where
  "ex64 = \<lparr>e_result = [1, 2, 3, 4, 5, 6, 7, 8], e_memory = [11, 12, 13, 14, 15, 16, 17, 18],
           e_a = 1, e_b = 2, e_c = 3, e_count = 0\<rparr>"

text \<open>
  What the base class needs of a derived class's \<^verbatim>\<open>_do_isaac\<close>: on an engine with arrays
  of \<open>state_size\<close> words it returns, keeps the arrays' size, adds one to \<^verbatim>\<open>c_\<close>, and
  neither reads nor writes \<^verbatim>\<open>count_\<close>.
\<close>

definition gen_ok :: "'a::len word derived \<Rightarrow> nat \<Rightarrow> bool" where
  "gen_ok D Alpha \<longleftrightarrow>
     (\<forall>e. wf_engine Alpha e \<longrightarrow>
        (\<exists>e'. d_do_isaac D Alpha e = Some e' \<and> wf_engine Alpha e' \<and> e_c e' = e_c e + 1
            \<and> e_count e' = e_count e)) \<and>
     (\<forall>e n. d_do_isaac D Alpha (e\<lparr>e_count := n\<rparr>)
        = map_option (\<lambda>e'. e'\<lparr>e_count := n\<rparr>) (d_do_isaac D Alpha e))"

text \<open>
  The fields of the text format in the order of section 6 of the specification:
  \<open>count\<close>, the words of the output buffer, the words of the memory array, \<open>a\<close>, \<open>b\<close>, \<open>c\<close>;
  and the white-space separated fields of a text.
\<close>

definition field_values :: "'a::len word engine \<Rightarrow> nat list" where
  "field_values e =
     e_count e # map unat (e_result e) @ map unat (e_memory e)
       @ [unat (e_a e), unat (e_b e), unat (e_c e)]"



text \<open>
  Reading one number after the other, each with the largest value of its type: what
  \<^verbatim>\<open>operator>>\<close> is to be compared with. \<open>None\<close> when one of the extractions fails.
\<close>

fun get_nums :: "nat list \<Rightarrow> istream \<Rightarrow> istream \<times> nat list option" where
  "get_nums [] is = (is, Some [])"
| "get_nums (mx # mxs) is =
     (case get_num mx is of
        (is', None) \<Rightarrow> (is', None)
      | (is', Some v) \<Rightarrow>
          (case get_nums mxs is' of
             (is'', None) \<Rightarrow> (is'', None)
           | (is'', Some vs) \<Rightarrow> (is'', Some (v # vs))))"

definition field_maxes :: "nat \<Rightarrow> nat \<Rightarrow> nat list" where
  "field_maxes wd Alpha = size_max # replicate (2 * state_size Alpha + 3) (word_max wd)"

definition assign_fields :: "nat \<Rightarrow> nat list \<Rightarrow> 'a::len word engine \<Rightarrow> 'a word engine" where
  "assign_fields Alpha vs x =
     commit Alpha (vs ! 0)
       (map of_nat (take (state_size Alpha) (drop 1 vs)))
       (map of_nat (take (state_size Alpha) (drop (1 + state_size Alpha) vs)))
       (of_nat (vs ! (1 + 2 * state_size Alpha)))
       (of_nat (vs ! (2 + 2 * state_size Alpha)))
       (of_nat (vs ! (3 + 2 * state_size Alpha))) x"

definition istream_of :: "string \<Rightarrow> istream" where
  "istream_of s = \<lparr>is_buf = s, is_fail = False\<rparr>"

section \<open>The generation step\<close>

lemma nat_and_le2: "(a::nat) AND b \<le> b"
  by (metis AND_upper2 of_nat_0_le_iff of_nat_and_eq of_nat_le_iff)

lemma state_size_pos: "0 < state_size Alpha"
  by (simp add: state_size_def)

lemma ind_index_less: "(n AND push_bit sh (state_size Alpha - 1)) div 2 ^ sh < state_size Alpha"
proof -
  have "n AND push_bit sh (state_size Alpha - 1) \<le> (state_size Alpha - 1) * 2 ^ sh"
    using nat_and_le2 [of n "push_bit sh (state_size Alpha - 1)"] by (simp add: push_bit_eq_mult)
  then have "(n AND push_bit sh (state_size Alpha - 1)) div 2 ^ sh \<le> state_size Alpha - 1"
    by (metis div_le_mono div_mult_self_is_m zero_less_numeral zero_less_power)
  then show ?thesis using state_size_pos [of Alpha] by linarith
qed

lemma ind_Some:
  "length mm = state_size Alpha \<Longrightarrow> \<exists>v. ind sh Alpha mm x = Some v"
  unfolding ind_def rd_def using ind_index_less [of "unat x" sh Alpha] by auto

lemma dvd4_step: "4 dvd (mend - i) \<Longrightarrow> i < mend \<Longrightarrow> i + 4 \<le> mend \<and> 4 dvd (mend - (i + 4))"
  for i mend :: nat
  by presburger

lemma half_state_size: "3 \<le> Alpha \<Longrightarrow> 2 * (state_size Alpha div 2) = state_size Alpha \<and> 4 dvd state_size Alpha div 2"
proof -
  assume "3 \<le> Alpha"
  then obtain k where k: "Alpha = k + 3" by (metis add.commute le_Suc_ex)
  show ?thesis by (simp add: k state_size_def power_add)
qed

subsection \<open>\<^verbatim>\<open>isaac::_do_isaac\<close>\<close>

lemma rngstep32_Some:
  assumes "length (r_mm s) = state_size Alpha" "r_m s < state_size Alpha"
    "r_m2 s < state_size Alpha" "r_r s < length (r_res s)"
  shows "\<exists>s'. rngstep32 Alpha mix s = Some s' \<and> length (r_mm s') = state_size Alpha
     \<and> length (r_res s') = length (r_res s)
     \<and> r_m s' = r_m s + 1 \<and> r_m2 s' = r_m2 s + 1 \<and> r_r s' = r_r s + 1"
proof -
  obtain i1 where i1: "ind 2 Alpha (r_mm s) (r_mm s ! r_m s) = Some i1"
    using ind_Some [OF assms(1)] by blast
  define a where "a = (r_a s XOR mix) + r_mm s ! r_m2 s"
  define y where "y = i1 + a + r_b s"
  have "length ((r_mm s)[r_m s := y]) = state_size Alpha" using assms(1) by simp
  then obtain i2 where i2: "ind 2 Alpha ((r_mm s)[r_m s := y]) (drop_bit Alpha y) = Some i2"
    using ind_Some by blast
  show ?thesis
    using assms i1 i2 by (simp add: rngstep32_def rd_def wr_def a_def y_def Let_def)
qed

lemma body32_Some:
  assumes "length (r_mm s) = state_size Alpha" "r_m s + 4 \<le> state_size Alpha"
    "r_m2 s + 4 \<le> state_size Alpha" "r_r s + 4 \<le> length (r_res s)"
  shows "\<exists>s'. body32 Alpha s = Some s' \<and> length (r_mm s') = state_size Alpha
     \<and> length (r_res s') = length (r_res s)
     \<and> r_m s' = r_m s + 4 \<and> r_m2 s' = r_m2 s + 4 \<and> r_r s' = r_r s + 4"
proof -
  obtain s1 where s1: "rngstep32 Alpha (push_bit 13 (r_a s)) s = Some s1"
    "length (r_mm s1) = state_size Alpha" "length (r_res s1) = length (r_res s)"
    "r_m s1 = r_m s + 1" "r_m2 s1 = r_m2 s + 1" "r_r s1 = r_r s + 1"
    using rngstep32_Some [of s Alpha] assms by fastforce
  obtain s2 where s2: "rngstep32 Alpha (drop_bit 6 (r_a s1)) s1 = Some s2"
    "length (r_mm s2) = state_size Alpha" "length (r_res s2) = length (r_res s)"
    "r_m s2 = r_m s + 2" "r_m2 s2 = r_m2 s + 2" "r_r s2 = r_r s + 2"
    using rngstep32_Some [of s1 Alpha] assms s1 by fastforce
  obtain s3 where s3: "rngstep32 Alpha (push_bit 2 (r_a s2)) s2 = Some s3"
    "length (r_mm s3) = state_size Alpha" "length (r_res s3) = length (r_res s)"
    "r_m s3 = r_m s + 3" "r_m2 s3 = r_m2 s + 3" "r_r s3 = r_r s + 3"
    using rngstep32_Some [of s2 Alpha] assms s2 by fastforce
  obtain s4 where s4: "rngstep32 Alpha (drop_bit 16 (r_a s3)) s3 = Some s4"
    "length (r_mm s4) = state_size Alpha" "length (r_res s4) = length (r_res s)"
    "r_m s4 = r_m s + 4" "r_m2 s4 = r_m2 s + 4" "r_r s4 = r_r s + 4"
    using rngstep32_Some [of s3 Alpha] assms s3 by fastforce
  show ?thesis
    using s1 s2 s3 s4 by (simp add: body32_def)
qed

lemma loop_m32_step: "r_m s < mend \<Longrightarrow> loop_m32 Alpha mend s = body32 Alpha s \<bind> loop_m32 Alpha mend"
  by (subst loop_m32.simps) simp

lemma loop_m32_done: "\<not> r_m s < mend \<Longrightarrow> loop_m32 Alpha mend s = Some s"
  by (subst loop_m32.simps) simp

lemma loop_m2_32_step: "r_m2 s < mend \<Longrightarrow> loop_m2_32 Alpha mend s = body32 Alpha s \<bind> loop_m2_32 Alpha mend"
  by (subst loop_m2_32.simps) simp

lemma loop_m2_32_done: "\<not> r_m2 s < mend \<Longrightarrow> loop_m2_32 Alpha mend s = Some s"
  by (subst loop_m2_32.simps) simp

lemma loop_m32_Some:
  "length (r_mm s) = state_size Alpha \<Longrightarrow> length (r_res s) = state_size Alpha \<Longrightarrow>
   4 dvd (mend - r_m s) \<Longrightarrow> r_m s \<le> mend \<Longrightarrow> r_m2 s = r_m s + mend \<Longrightarrow> r_r s = r_m s \<Longrightarrow>
   2 * mend = state_size Alpha \<Longrightarrow>
   \<exists>s'. loop_m32 Alpha mend s = Some s' \<and> length (r_mm s') = state_size Alpha
     \<and> length (r_res s') = state_size Alpha \<and> r_m s' = mend \<and> r_m2 s' = 2 * mend \<and> r_r s' = mend"
proof (induction Alpha mend s rule: loop_m32.induct)
  case (1 Alpha mend s)
  show ?case
  proof (cases "r_m s < mend")
    case False
    with "1.prems" show ?thesis by (simp add: loop_m32_done)
  next
    case True
    with "1.prems" have st: "r_m s + 4 \<le> mend" "4 dvd (mend - (r_m s + 4))"
      using dvd4_step by blast+
    obtain s' where s': "body32 Alpha s = Some s'" "length (r_mm s') = state_size Alpha"
      "length (r_res s') = length (r_res s)"
      "r_m s' = r_m s + 4" "r_m2 s' = r_m2 s + 4" "r_r s' = r_r s + 4"
      using body32_Some [of s Alpha] "1.prems" st by auto
    have "\<exists>s''. loop_m32 Alpha mend s' = Some s'' \<and> length (r_mm s'') = state_size Alpha
     \<and> length (r_res s'') = state_size Alpha \<and> r_m s'' = mend \<and> r_m2 s'' = 2 * mend \<and> r_r s'' = mend"
      using "1.IH" [OF True s'(1)] s' "1.prems" st by simp
    then show ?thesis using True s'(1) by (simp add: loop_m32_step)
  qed
qed

lemma loop_m2_32_Some:
  "length (r_mm s) = state_size Alpha \<Longrightarrow> length (r_res s) = state_size Alpha \<Longrightarrow>
   4 dvd (mend - r_m2 s) \<Longrightarrow> r_m2 s \<le> mend \<Longrightarrow> r_m s = r_m2 s + mend \<Longrightarrow> r_r s = r_m s \<Longrightarrow>
   2 * mend = state_size Alpha \<Longrightarrow>
   \<exists>s'. loop_m2_32 Alpha mend s = Some s' \<and> length (r_mm s') = state_size Alpha
     \<and> length (r_res s') = state_size Alpha \<and> r_r s' = state_size Alpha"
proof (induction Alpha mend s rule: loop_m2_32.induct)
  case (1 Alpha mend s)
  show ?case
  proof (cases "r_m2 s < mend")
    case False
    with "1.prems" show ?thesis by (simp add: loop_m2_32_done)
  next
    case True
    with "1.prems" have st: "r_m2 s + 4 \<le> mend" "4 dvd (mend - (r_m2 s + 4))"
      using dvd4_step by blast+
    obtain s' where s': "body32 Alpha s = Some s'" "length (r_mm s') = state_size Alpha"
      "length (r_res s') = length (r_res s)"
      "r_m s' = r_m s + 4" "r_m2 s' = r_m2 s + 4" "r_r s' = r_r s + 4"
      using body32_Some [of s Alpha] "1.prems" st by auto
    have "\<exists>s''. loop_m2_32 Alpha mend s' = Some s'' \<and> length (r_mm s'') = state_size Alpha
     \<and> length (r_res s'') = state_size Alpha \<and> r_r s'' = state_size Alpha"
      using "1.IH" [OF True s'(1)] s' "1.prems" st by simp
    then show ?thesis using True s'(1) by (simp add: loop_m2_32_step)
  qed
qed

lemma do_isaac32_Some:
  assumes "3 \<le> Alpha" "wf_engine Alpha e"
  shows "\<exists>e'. do_isaac32 Alpha e = Some e' \<and> wf_engine Alpha e' \<and> e_c e' = e_c e + 1 \<and> e_count e' = e_count e"
proof -
  define mend where "mend = state_size Alpha div 2"
  have h: "2 * mend = state_size Alpha" "4 dvd mend"
    using half_state_size [OF assms(1)] by (simp_all add: mend_def)
  define s0 where "s0 = \<lparr>r_a = e_a e, r_b = e_b e + (e_c e + 1), r_mm = e_memory e, r_res = e_result e,
              r_m = 0, r_m2 = mend, r_r = 0\<rparr>"
  have p0: "length (r_mm s0) = state_size Alpha" "length (r_res s0) = state_size Alpha"
    "4 dvd (mend - r_m s0)" "r_m s0 \<le> mend" "r_m2 s0 = r_m s0 + mend" "r_r s0 = r_m s0"
    using assms(2) h by (simp_all add: s0_def wf_engine_def)
  from loop_m32_Some [OF p0 h(1)]
  obtain s1 where s1: "loop_m32 Alpha mend s0 = Some s1" "length (r_mm s1) = state_size Alpha"
     "length (r_res s1) = state_size Alpha" "r_m s1 = mend" "r_m2 s1 = 2 * mend" "r_r s1 = mend"
    by blast
  define t1 where "t1 = s1\<lparr>r_m2 := 0\<rparr>"
  have p1: "length (r_mm t1) = state_size Alpha" "length (r_res t1) = state_size Alpha"
    "4 dvd (mend - r_m2 t1)" "r_m2 t1 \<le> mend" "r_m t1 = r_m2 t1 + mend" "r_r t1 = r_m t1"
    using s1 h by (simp_all add: t1_def)
  from loop_m2_32_Some [OF p1 h(1)]
  obtain s2 where s2: "loop_m2_32 Alpha mend t1 = Some s2" "length (r_mm s2) = state_size Alpha"
     "length (r_res s2) = state_size Alpha"
    by blast
  have "do_isaac32 Alpha e = Some (e\<lparr>e_result := r_res s2, e_memory := r_mm s2, e_a := r_a s2, e_b := r_b s2, e_c := e_c e + 1\<rparr>)"
    unfolding do_isaac32_def Let_def mend_def [symmetric] s0_def [symmetric]
    by (simp add: s1(1) t1_def [symmetric] s2(1))
  then show ?thesis
    using s2 by (simp add: wf_engine_def)
qed

lemma do_isaac32_count:
  "do_isaac32 Alpha (e\<lparr>e_count := n\<rparr>) = map_option (\<lambda>e'. e'\<lparr>e_count := n\<rparr>) (do_isaac32 Alpha e)"
  by (simp add: do_isaac32_def Let_def split: bind_split)

subsection \<open>\<^verbatim>\<open>isaac64::_do_isaac\<close>\<close>

lemma rngstep64_Some:
  assumes "length (r_mm s) = state_size Alpha" "r_m s < state_size Alpha"
    "r_m2 s < state_size Alpha" "r_r s < length (r_res s)"
  shows "\<exists>s'. rngstep64 Alpha mix s = Some s' \<and> length (r_mm s') = state_size Alpha
     \<and> length (r_res s') = length (r_res s)
     \<and> r_m s' = r_m s + 1 \<and> r_m2 s' = r_m2 s + 1 \<and> r_r s' = r_r s + 1"
proof -
  obtain i1 where i1: "ind 3 Alpha (r_mm s) (r_mm s ! r_m s) = Some i1"
    using ind_Some [OF assms(1)] by blast
  define a where "a = mix + r_mm s ! r_m2 s"
  define y where "y = i1 + a + r_b s"
  have "length ((r_mm s)[r_m s := y]) = state_size Alpha" using assms(1) by simp
  then obtain i2 where i2: "ind 3 Alpha ((r_mm s)[r_m s := y]) (drop_bit Alpha y) = Some i2"
    using ind_Some by blast
  show ?thesis
    using assms i1 i2 by (simp add: rngstep64_def rd_def wr_def a_def y_def Let_def)
qed

lemma body64_Some:
  assumes "length (r_mm s) = state_size Alpha" "r_m s + 4 \<le> state_size Alpha"
    "r_m2 s + 4 \<le> state_size Alpha" "r_r s + 4 \<le> length (r_res s)"
  shows "\<exists>s'. body64 Alpha s = Some s' \<and> length (r_mm s') = state_size Alpha
     \<and> length (r_res s') = length (r_res s)
     \<and> r_m s' = r_m s + 4 \<and> r_m2 s' = r_m2 s + 4 \<and> r_r s' = r_r s + 4"
proof -
  obtain s1 where s1: "rngstep64 Alpha (NOT (r_a s XOR push_bit 21 (r_a s))) s = Some s1"
    "length (r_mm s1) = state_size Alpha" "length (r_res s1) = length (r_res s)"
    "r_m s1 = r_m s + 1" "r_m2 s1 = r_m2 s + 1" "r_r s1 = r_r s + 1"
    using rngstep64_Some [of s Alpha] assms by fastforce
  obtain s2 where s2: "rngstep64 Alpha (r_a s1 XOR drop_bit 5 (r_a s1)) s1 = Some s2"
    "length (r_mm s2) = state_size Alpha" "length (r_res s2) = length (r_res s)"
    "r_m s2 = r_m s + 2" "r_m2 s2 = r_m2 s + 2" "r_r s2 = r_r s + 2"
    using rngstep64_Some [of s1 Alpha] assms s1 by fastforce
  obtain s3 where s3: "rngstep64 Alpha (r_a s2 XOR push_bit 12 (r_a s2)) s2 = Some s3"
    "length (r_mm s3) = state_size Alpha" "length (r_res s3) = length (r_res s)"
    "r_m s3 = r_m s + 3" "r_m2 s3 = r_m2 s + 3" "r_r s3 = r_r s + 3"
    using rngstep64_Some [of s2 Alpha] assms s2 by fastforce
  obtain s4 where s4: "rngstep64 Alpha (r_a s3 XOR drop_bit 33 (r_a s3)) s3 = Some s4"
    "length (r_mm s4) = state_size Alpha" "length (r_res s4) = length (r_res s)"
    "r_m s4 = r_m s + 4" "r_m2 s4 = r_m2 s + 4" "r_r s4 = r_r s + 4"
    using rngstep64_Some [of s3 Alpha] assms s3 by fastforce
  show ?thesis
    using s1 s2 s3 s4 by (simp add: body64_def)
qed

lemma loop_m64_step: "r_m s < mend \<Longrightarrow> loop_m64 Alpha mend s = body64 Alpha s \<bind> loop_m64 Alpha mend"
  by (subst loop_m64.simps) simp

lemma loop_m64_done: "\<not> r_m s < mend \<Longrightarrow> loop_m64 Alpha mend s = Some s"
  by (subst loop_m64.simps) simp

lemma loop_m2_64_step: "r_m2 s < mend \<Longrightarrow> loop_m2_64 Alpha mend s = body64 Alpha s \<bind> loop_m2_64 Alpha mend"
  by (subst loop_m2_64.simps) simp

lemma loop_m2_64_done: "\<not> r_m2 s < mend \<Longrightarrow> loop_m2_64 Alpha mend s = Some s"
  by (subst loop_m2_64.simps) simp

lemma loop_m64_Some:
  "length (r_mm s) = state_size Alpha \<Longrightarrow> length (r_res s) = state_size Alpha \<Longrightarrow>
   4 dvd (mend - r_m s) \<Longrightarrow> r_m s \<le> mend \<Longrightarrow> r_m2 s = r_m s + mend \<Longrightarrow> r_r s = r_m s \<Longrightarrow>
   2 * mend = state_size Alpha \<Longrightarrow>
   \<exists>s'. loop_m64 Alpha mend s = Some s' \<and> length (r_mm s') = state_size Alpha
     \<and> length (r_res s') = state_size Alpha \<and> r_m s' = mend \<and> r_m2 s' = 2 * mend \<and> r_r s' = mend"
proof (induction Alpha mend s rule: loop_m64.induct)
  case (1 Alpha mend s)
  show ?case
  proof (cases "r_m s < mend")
    case False
    with "1.prems" show ?thesis by (simp add: loop_m64_done)
  next
    case True
    with "1.prems" have st: "r_m s + 4 \<le> mend" "4 dvd (mend - (r_m s + 4))"
      using dvd4_step by blast+
    obtain s' where s': "body64 Alpha s = Some s'" "length (r_mm s') = state_size Alpha"
      "length (r_res s') = length (r_res s)"
      "r_m s' = r_m s + 4" "r_m2 s' = r_m2 s + 4" "r_r s' = r_r s + 4"
      using body64_Some [of s Alpha] "1.prems" st by auto
    have "\<exists>s''. loop_m64 Alpha mend s' = Some s'' \<and> length (r_mm s'') = state_size Alpha
     \<and> length (r_res s'') = state_size Alpha \<and> r_m s'' = mend \<and> r_m2 s'' = 2 * mend \<and> r_r s'' = mend"
      using "1.IH" [OF True s'(1)] s' "1.prems" st by simp
    then show ?thesis using True s'(1) by (simp add: loop_m64_step)
  qed
qed

lemma loop_m2_64_Some:
  "length (r_mm s) = state_size Alpha \<Longrightarrow> length (r_res s) = state_size Alpha \<Longrightarrow>
   4 dvd (mend - r_m2 s) \<Longrightarrow> r_m2 s \<le> mend \<Longrightarrow> r_m s = r_m2 s + mend \<Longrightarrow> r_r s = r_m s \<Longrightarrow>
   2 * mend = state_size Alpha \<Longrightarrow>
   \<exists>s'. loop_m2_64 Alpha mend s = Some s' \<and> length (r_mm s') = state_size Alpha
     \<and> length (r_res s') = state_size Alpha \<and> r_r s' = state_size Alpha"
proof (induction Alpha mend s rule: loop_m2_64.induct)
  case (1 Alpha mend s)
  show ?case
  proof (cases "r_m2 s < mend")
    case False
    with "1.prems" show ?thesis by (simp add: loop_m2_64_done)
  next
    case True
    with "1.prems" have st: "r_m2 s + 4 \<le> mend" "4 dvd (mend - (r_m2 s + 4))"
      using dvd4_step by blast+
    obtain s' where s': "body64 Alpha s = Some s'" "length (r_mm s') = state_size Alpha"
      "length (r_res s') = length (r_res s)"
      "r_m s' = r_m s + 4" "r_m2 s' = r_m2 s + 4" "r_r s' = r_r s + 4"
      using body64_Some [of s Alpha] "1.prems" st by auto
    have "\<exists>s''. loop_m2_64 Alpha mend s' = Some s'' \<and> length (r_mm s'') = state_size Alpha
     \<and> length (r_res s'') = state_size Alpha \<and> r_r s'' = state_size Alpha"
      using "1.IH" [OF True s'(1)] s' "1.prems" st by simp
    then show ?thesis using True s'(1) by (simp add: loop_m2_64_step)
  qed
qed

lemma do_isaac64_Some:
  assumes "3 \<le> Alpha" "wf_engine Alpha e"
  shows "\<exists>e'. do_isaac64 Alpha e = Some e' \<and> wf_engine Alpha e' \<and> e_c e' = e_c e + 1 \<and> e_count e' = e_count e"
proof -
  define mend where "mend = state_size Alpha div 2"
  have h: "2 * mend = state_size Alpha" "4 dvd mend"
    using half_state_size [OF assms(1)] by (simp_all add: mend_def)
  define s0 where "s0 = \<lparr>r_a = e_a e, r_b = e_b e + (e_c e + 1), r_mm = e_memory e, r_res = e_result e,
              r_m = 0, r_m2 = mend, r_r = 0\<rparr>"
  have p0: "length (r_mm s0) = state_size Alpha" "length (r_res s0) = state_size Alpha"
    "4 dvd (mend - r_m s0)" "r_m s0 \<le> mend" "r_m2 s0 = r_m s0 + mend" "r_r s0 = r_m s0"
    using assms(2) h by (simp_all add: s0_def wf_engine_def)
  from loop_m64_Some [OF p0 h(1)]
  obtain s1 where s1: "loop_m64 Alpha mend s0 = Some s1" "length (r_mm s1) = state_size Alpha"
     "length (r_res s1) = state_size Alpha" "r_m s1 = mend" "r_m2 s1 = 2 * mend" "r_r s1 = mend"
    by blast
  define t1 where "t1 = s1\<lparr>r_m2 := 0\<rparr>"
  have p1: "length (r_mm t1) = state_size Alpha" "length (r_res t1) = state_size Alpha"
    "4 dvd (mend - r_m2 t1)" "r_m2 t1 \<le> mend" "r_m t1 = r_m2 t1 + mend" "r_r t1 = r_m t1"
    using s1 h by (simp_all add: t1_def)
  from loop_m2_64_Some [OF p1 h(1)]
  obtain s2 where s2: "loop_m2_64 Alpha mend t1 = Some s2" "length (r_mm s2) = state_size Alpha"
     "length (r_res s2) = state_size Alpha"
    by blast
  have "do_isaac64 Alpha e = Some (e\<lparr>e_result := r_res s2, e_memory := r_mm s2, e_a := r_a s2, e_b := r_b s2, e_c := e_c e + 1\<rparr>)"
    unfolding do_isaac64_def Let_def mend_def [symmetric] s0_def [symmetric]
    by (simp add: s1(1) t1_def [symmetric] s2(1))
  then show ?thesis
    using s2 by (simp add: wf_engine_def)
qed

lemma do_isaac64_count:
  "do_isaac64 Alpha (e\<lparr>e_count := n\<rparr>) = map_option (\<lambda>e'. e'\<lparr>e_count := n\<rparr>) (do_isaac64 Alpha e)"
  by (simp add: do_isaac64_def Let_def split: bind_split)

lemma isaac_gen_ok: "3 \<le> Alpha \<Longrightarrow> gen_ok isaac Alpha"
  unfolding gen_ok_def isaac_def
  using do_isaac32_Some do_isaac32_count by simp

lemma isaac64_gen_ok: "3 \<le> Alpha \<Longrightarrow> gen_ok isaac64 Alpha"
  unfolding gen_ok_def isaac64_def
  using do_isaac64_Some do_isaac64_count by simp

section \<open>Loops over the arrays\<close>

lemma for_upto_step: "i < n \<Longrightarrow> for_upto i n body st = body i st \<bind> for_upto (i + 1) n body"
  by (subst for_upto.simps) simp

lemma for_upto_done: "\<not> i < n \<Longrightarrow> for_upto i n body st = Some st"
  by (subst for_upto.simps) simp

lemma for_upto_inv:
  assumes "P i st" "i \<le> n"
    and "\<And>j s. i \<le> j \<Longrightarrow> j < n \<Longrightarrow> P j s \<Longrightarrow> \<exists>s'. body j s = Some s' \<and> P (Suc j) s'"
  shows "\<exists>st'. for_upto i n body st = Some st' \<and> P n st'"
  using assms
proof (induction i n body st rule: for_upto.induct)
  case (1 i n body st)
  show ?case
  proof (cases "i < n")
    case False
    with "1.prems" show ?thesis by (simp add: for_upto_done)
  next
    case True
    obtain s' where s': "body i st = Some s'" "P (Suc i) s'"
      using "1.prems"(3) [of i st] True "1.prems"(1) by auto
    have "\<exists>st'. for_upto (i + 1) n body s' = Some st' \<and> P n st'"
      using "1.IH" [OF True s'(1)] s'(2) True "1.prems"(3) by simp
    then show ?thesis using True s'(1) by (simp add: for_upto_step)
  qed
qed

lemma for_upto_fill:
  assumes "length res = n"
    and "\<And>j r. j < n \<Longrightarrow> length r = n \<Longrightarrow> body j r = Some (r[j := f j])"
  shows "for_upto 0 n body res = Some (map f [0..<n])"
proof -
  define P where "P = (\<lambda>j r. length r = n \<and> (\<forall>k<j. r ! k = f k))"
  have "\<exists>st'. for_upto 0 n body res = Some st' \<and> P n st'"
  proof (rule for_upto_inv)
    show "P 0 res" using assms(1) by (simp add: P_def)
    show "0 \<le> n" by simp
    fix j s assume "j < n" "P j s"
    then show "\<exists>s'. body j s = Some s' \<and> P (Suc j) s'"
      using assms(2) [of j s] by (auto simp: P_def nth_list_update less_Suc_eq)
  qed
  then obtain st' where st': "for_upto 0 n body res = Some st'" "P n st'" by blast
  have "st' = map f [0..<n]"
    using st'(2) by (auto simp: P_def intro: nth_equalityI)
  then show ?thesis using st'(1) by simp
qed

lemma seed_fill:
  "length res = n \<Longrightarrow> for_upto 0 n (\<lambda>i res. wr res i s) res = Some (replicate n s)"
  using for_upto_fill [of res n "\<lambda>i res. wr res i s" "\<lambda>_. s"]
  by (simp add: wr_def map_replicate_const)

lemma seed_sseq_fill:
  "length res = n \<Longrightarrow> n \<le> length sa \<Longrightarrow>
   for_upto 0 n (\<lambda>i res. do { v \<leftarrow> rd sa i; wr res i v }) res = Some (take n sa)"
proof -
  assume a: "length res = n" "n \<le> length sa"
  have "for_upto 0 n (\<lambda>i res. do { v \<leftarrow> rd sa i; wr res i v }) res = Some (map (\<lambda>i. sa ! i) [0..<n])"
    using a by (intro for_upto_fill) (auto simp: rd_def wr_def)
  moreover have "map (\<lambda>i. sa ! i) [0..<n] = take n sa"
    using a by (auto intro: nth_equalityI)
  ultimately show ?thesis by simp
qed

lemma seed_range_fill:
  fixes xs :: "'b::len word list" and res :: "'a::len word list"
  assumes "length res = n" "xs \<noteq> []"
  shows "\<exists>it. for_upto 0 n
        (\<lambda>i (it, res). do {
           let it = (if it = length xs then 0 else it);
           v \<leftarrow> rd xs it;
           res \<leftarrow> wr res i (ucast v);
           Some (it + 1, res)
         }) (0, res) = Some (it, cyc n xs)"
proof -
  define K where "K = length xs"
  have K: "0 < K" using assms(2) by (simp add: K_def)
  define body :: "nat \<Rightarrow> nat \<times> 'a word list \<Rightarrow> (nat \<times> 'a word list) option"
    where "body = (\<lambda>i (it, res). do {
           let it = (if it = length xs then 0 else it);
           v \<leftarrow> rd xs it;
           res \<leftarrow> wr res i (ucast v);
           Some (it + 1, res)
         })"
  define P where "P = (\<lambda>j (st :: nat \<times> 'a word list). length (snd st) = n \<and> fst st \<le> K \<and> fst st mod K = j mod K
      \<and> (\<forall>k<j. snd st ! k = ucast (xs ! (k mod K))))"
  have "\<exists>st'. for_upto 0 n body (0, res) = Some st' \<and> P n st'"
  proof (rule for_upto_inv)
    show "P 0 (0, res)" using assms(1) by (simp add: P_def)
    show "0 \<le> n" by simp
    fix j s assume j: "j < n" and Ps: "P j s"
    obtain it r where s: "s = (it, r)" by (cases s)
    define it' where "it' = (if it = K then 0 else it)"
    have it': "it' < K" "it' = j mod K"
      using Ps K by (auto simp: P_def s it'_def)
    have b: "body j s = Some (it' + 1, r[j := ucast (xs ! it')])"
      using it' j Ps by (simp add: body_def s it'_def [symmetric] K_def [symmetric] rd_def wr_def P_def Let_def)
    have "(it' + 1) mod K = Suc j mod K"
      using it'(2) by (simp add: mod_Suc_eq)
    then have "P (Suc j) (it' + 1, r[j := ucast (xs ! it')])"
      using Ps it' j by (auto simp: P_def s nth_list_update less_Suc_eq)
    then show "\<exists>s'. body j s = Some s' \<and> P (Suc j) s'" using b by simp
  qed
  then obtain it r where st': "for_upto 0 n body (0, res) = Some (it, r)" "P n (it, r)" by auto
  have "r = cyc n xs"
    using st'(2) by (auto simp: P_def cyc_def K_def intro: nth_equalityI)
  then show ?thesis using st'(1) by (auto simp: body_def)
qed

lemma copy_eq:
  assumes "wf_engine Alpha rhs" "wf_engine Alpha u"
  shows "copy Alpha rhs u = Some rhs"
proof -
  define n where "n = state_size Alpha"
  define body where "body = (\<lambda>i (res, mm). do {
           v \<leftarrow> rd (e_result rhs) i;
           res \<leftarrow> wr res i v;
           w \<leftarrow> rd (e_memory rhs) i;
           mm \<leftarrow> wr mm i w;
           Some (res, mm)
         })"
  define P where "P = (\<lambda>j (st :: 'a list \<times> 'a list). length (fst st) = n \<and> length (snd st) = n
     \<and> (\<forall>k<j. fst st ! k = e_result rhs ! k \<and> snd st ! k = e_memory rhs ! k))"
  have "\<exists>st'. for_upto 0 n body (e_result u, e_memory u) = Some st' \<and> P n st'"
  proof (rule for_upto_inv)
    show "P 0 (e_result u, e_memory u)" using assms(2) by (simp add: P_def wf_engine_def n_def)
    show "0 \<le> n" by simp
    fix j s assume j: "j < n" and Ps: "P j s"
    obtain r m where s: "s = (r, m)" by (cases s)
    have b: "body j s = Some (r[j := e_result rhs ! j], m[j := e_memory rhs ! j])"
      using j Ps assms(1) by (simp add: body_def s rd_def wr_def P_def wf_engine_def n_def)
    have "P (Suc j) (r[j := e_result rhs ! j], m[j := e_memory rhs ! j])"
      using Ps j by (auto simp: P_def s nth_list_update less_Suc_eq)
    then show "\<exists>s'. body j s = Some s' \<and> P (Suc j) s'" using b by simp
  qed
  then obtain r m where st': "for_upto 0 n body (e_result u, e_memory u) = Some (r, m)" "P n (r, m)" by auto
  have "r = e_result rhs" "m = e_memory rhs"
    using st'(2) assms(1) by (auto simp: P_def wf_engine_def n_def intro: nth_equalityI)
  then show ?thesis
    using st'(1) by (simp add: copy_def body_def [symmetric] n_def [symmetric])
qed

section \<open>Initialisation\<close>

lemma init_pass1_step:
  "i < state_size Alpha \<Longrightarrow> init_pass1 D Alpha i rg e =
     rd8 (e_result e) i \<bind> (\<lambda>v. wr8 (e_memory e) i (d_mix D (add8 rg v)) \<bind>
        (\<lambda>mm. init_pass1 D Alpha (i + 8) (d_mix D (add8 rg v)) (e\<lparr>e_memory := mm\<rparr>)))"
  by (subst init_pass1.simps) (simp add: Let_def)

lemma init_pass1_done: "\<not> i < state_size Alpha \<Longrightarrow> init_pass1 D Alpha i rg e = Some (rg, e)"
  by (subst init_pass1.simps) simp

lemma init_pass2_step:
  "i < state_size Alpha \<Longrightarrow> init_pass2 D Alpha i rg e =
     rd8 (e_memory e) i \<bind> (\<lambda>v. wr8 (e_memory e) i (d_mix D (add8 rg v)) \<bind>
        (\<lambda>mm. init_pass2 D Alpha (i + 8) (d_mix D (add8 rg v)) (e\<lparr>e_memory := mm\<rparr>)))"
  by (subst init_pass2.simps) (simp add: Let_def)

lemma init_pass2_done: "\<not> i < state_size Alpha \<Longrightarrow> init_pass2 D Alpha i rg e = Some (rg, e)"
  by (subst init_pass2.simps) simp

lemma regs_cases:
  obtains a b c d e f g h where "v = (a, b, c, d, e, f, g, h)"
proof (cases v)
  case (fields a b c d e f gh)
  then show ?thesis using that by (cases gh) auto
qed

lemma rd8_Some: "i + 8 \<le> length xs \<Longrightarrow> \<exists>v. rd8 xs i = Some v"
  by (simp add: rd8_def rd_def)

lemma wr8_Some:
  "i + 8 \<le> length xs \<Longrightarrow> \<exists>ys. wr8 xs i v = Some ys \<and> length ys = length xs"
  by (cases v rule: regs_cases) (simp add: wr8_def wr_def)

lemma wr8_take:
  assumes "length xs = length ys" "take i xs = take i ys" "i + 8 \<le> length xs"
    "wr8 xs i v = Some xs'" "wr8 ys i v = Some ys'"
  shows "take (i + 8) xs' = take (i + 8) ys'"
proof -
  obtain a b c d e f g h where v: "v = (a, b, c, d, e, f, g, h)" by (rule regs_cases)
  have x: "xs' = xs[i := a, i + 1 := b, i + 2 := c, i + 3 := d, i + 4 := e, i + 5 := f, i + 6 := g, i + 7 := h]"
    using assms(3,4) by (simp add: v wr8_def wr_def)
  have y: "ys' = ys[i := a, i + 1 := b, i + 2 := c, i + 3 := d, i + 4 := e, i + 5 := f, i + 6 := g, i + 7 := h]"
    using assms(1,3,5) by (simp add: v wr8_def wr_def)
  have n: "\<And>k. k < i \<Longrightarrow> xs ! k = ys ! k"
    using assms(2,3) by (metis nth_take)
  show ?thesis
  proof (rule nth_equalityI)
    show "length (take (i + 8) xs') = length (take (i + 8) ys')"
      using assms(1) by (simp add: x y)
    fix k assume "k < length (take (i + 8) xs')"
    then have k: "k < i + 8" "k < length xs" by (simp_all add: x)
    show "take (i + 8) xs' ! k = take (i + 8) ys' ! k"
    proof (cases "k < i")
      case True
      then show ?thesis using k n [OF True] assms(1) by (simp add: x y)
    next
      case False
      then have "k = i \<or> k = i + 1 \<or> k = i + 2 \<or> k = i + 3 \<or> k = i + 4 \<or> k = i + 5 \<or> k = i + 6 \<or> k = i + 7"
        using k(1) by arith
      then show ?thesis using k assms(1,3) by (auto simp: x y)
    qed
  qed
qed

lemma dvd8_step: "8 dvd (n - i) \<Longrightarrow> i < n \<Longrightarrow> i + 8 \<le> n \<and> 8 dvd (n - (i + 8))"
  for i n :: nat
  by presburger

lemma dvd8_state_size: "3 \<le> Alpha \<Longrightarrow> 8 dvd state_size Alpha"
proof -
  assume "3 \<le> Alpha"
  then obtain k where k: "Alpha = k + 3" by (metis add.commute le_Suc_ex)
  show ?thesis by (simp add: k state_size_def power_add)
qed

lemma init_pass1_Some:
  "8 dvd (state_size Alpha - i) \<Longrightarrow> wf_engine Alpha e \<Longrightarrow>
   \<exists>rg' mm. init_pass1 D Alpha i rg e = Some (rg', e\<lparr>e_memory := mm\<rparr>) \<and> length mm = state_size Alpha"
proof (induction D Alpha i rg e rule: init_pass1.induct)
  case (1 D Alpha i rg e)
  show ?case
  proof (cases "i < state_size Alpha")
    case False
    then have "init_pass1 D Alpha i rg e = Some (rg, e\<lparr>e_memory := e_memory e\<rparr>)"
      by (simp add: init_pass1_done)
    then show ?thesis using "1.prems" unfolding wf_engine_def by blast
  next
    case True
    have st: "i + 8 \<le> state_size Alpha" "8 dvd (state_size Alpha - (i + 8))"
      using dvd8_step [OF "1.prems"(1) True] by auto
    obtain v where v: "rd8 (e_result e) i = Some v"
      using rd8_Some [of i "e_result e"] st "1.prems" by (auto simp: wf_engine_def)
    obtain mm where mm: "wr8 (e_memory e) i (d_mix D (add8 rg v)) = Some mm" "length mm = state_size Alpha"
      using wr8_Some [of i "e_memory e" "d_mix D (add8 rg v)"] st "1.prems" by (auto simp: wf_engine_def)
    have wf': "wf_engine Alpha (e\<lparr>e_memory := mm\<rparr>)"
      using "1.prems" mm by (simp add: wf_engine_def)
    from "1.IH" [OF True v refl mm(1) st(2) wf']
    show ?thesis using True v mm by (simp add: init_pass1_step)
  qed
qed

lemma init_pass2_Some:
  "8 dvd (state_size Alpha - i) \<Longrightarrow> wf_engine Alpha e \<Longrightarrow>
   \<exists>rg' mm. init_pass2 D Alpha i rg e = Some (rg', e\<lparr>e_memory := mm\<rparr>) \<and> length mm = state_size Alpha"
proof (induction D Alpha i rg e rule: init_pass2.induct)
  case (1 D Alpha i rg e)
  show ?case
  proof (cases "i < state_size Alpha")
    case False
    then have "init_pass2 D Alpha i rg e = Some (rg, e\<lparr>e_memory := e_memory e\<rparr>)"
      by (simp add: init_pass2_done)
    then show ?thesis using "1.prems" unfolding wf_engine_def by blast
  next
    case True
    have st: "i + 8 \<le> state_size Alpha" "8 dvd (state_size Alpha - (i + 8))"
      using dvd8_step [OF "1.prems"(1) True] by auto
    obtain v where v: "rd8 (e_memory e) i = Some v"
      using rd8_Some [of i "e_memory e"] st "1.prems" by (auto simp: wf_engine_def)
    obtain mm where mm: "wr8 (e_memory e) i (d_mix D (add8 rg v)) = Some mm" "length mm = state_size Alpha"
      using wr8_Some [of i "e_memory e" "d_mix D (add8 rg v)"] st "1.prems" by (auto simp: wf_engine_def)
    have wf': "wf_engine Alpha (e\<lparr>e_memory := mm\<rparr>)"
      using "1.prems" mm by (simp add: wf_engine_def)
    from "1.IH" [OF True v refl mm(1) st(2) wf']
    show ?thesis using True v mm by (simp add: init_pass2_step)
  qed
qed


lemma init_pass1_mem:
  "8 dvd (state_size Alpha - i) \<Longrightarrow> wf_engine Alpha e \<Longrightarrow> length M = state_size Alpha \<Longrightarrow>
   take i M = take i (e_memory e) \<Longrightarrow>
   init_pass1 D Alpha i rg (e\<lparr>e_memory := M\<rparr>) = init_pass1 D Alpha i rg e"
proof (induction D Alpha i rg e arbitrary: M rule: init_pass1.induct)
  case (1 D Alpha i rg e)
  have len: "length (e_memory e) = state_size Alpha" "length (e_result e) = state_size Alpha"
    using "1.prems"(2) by (simp_all add: wf_engine_def)
  show ?case
  proof (cases "i < state_size Alpha")
    case False
    then have "M = e_memory e" using "1.prems"(3,4) len by simp
    then show ?thesis by simp
  next
    case True
    have st: "i + 8 \<le> state_size Alpha" "8 dvd (state_size Alpha - (i + 8))"
      using dvd8_step [OF "1.prems"(1) True] by auto
    obtain v where v: "rd8 (e_result e) i = Some v"
      using rd8_Some [of i "e_result e"] st len by auto
    define rg' where "rg' = d_mix D (add8 rg v)"
    obtain mm where mm: "wr8 (e_memory e) i rg' = Some mm" "length mm = state_size Alpha"
      using wr8_Some [of i "e_memory e" rg'] st len by auto
    obtain M' where M': "wr8 M i rg' = Some M'" "length M' = state_size Alpha"
      using wr8_Some [of i M rg'] st "1.prems"(3) by auto
    have tk: "take (i + 8) M' = take (i + 8) mm"
      using wr8_take [of M "e_memory e" i rg' M' mm] "1.prems"(3,4) len st M' mm by simp
    have wf': "wf_engine Alpha (e\<lparr>e_memory := mm\<rparr>)"
      using len mm by (simp add: wf_engine_def)
    have "init_pass1 D Alpha (i + 8) rg' (e\<lparr>e_memory := mm, e_memory := M'\<rparr>)
        = init_pass1 D Alpha (i + 8) rg' (e\<lparr>e_memory := mm\<rparr>)"
      using "1.IH" [OF True v refl, of mm M'] mm M' st wf' tk by (simp add: rg'_def)
    then show ?thesis
      using True v mm M' by (simp add: init_pass1_step rg'_def [symmetric])
  qed
qed

lemma init_pass1_count:
  "init_pass1 D Alpha i rg (e\<lparr>e_count := n\<rparr>)
     = map_option (\<lambda>(rg', e'). (rg', e'\<lparr>e_count := n\<rparr>)) (init_pass1 D Alpha i rg e)"
proof (induction D Alpha i rg e rule: init_pass1.induct)
  case (1 D Alpha i rg e)
  show ?case
  proof (cases "i < state_size Alpha")
    case False
    then show ?thesis by (simp add: init_pass1_done)
  next
    case True
    show ?thesis
    proof (cases "rd8 (e_result e) i")
      case None
      then show ?thesis using True by (simp add: init_pass1_step)
    next
      case (Some v)
      show ?thesis
      proof (cases "wr8 (e_memory e) i (d_mix D (add8 rg v))")
        case None
        then show ?thesis using True Some by (simp add: init_pass1_step)
      next
        case (Some mm)
        have sw: "e\<lparr>e_count := n, e_memory := mm\<rparr> = e\<lparr>e_memory := mm, e_count := n\<rparr>"
          by simp
        show ?thesis
          using "1.IH" [OF True \<open>rd8 (e_result e) i = Some v\<close> refl Some] True Some
            \<open>rd8 (e_result e) i = Some v\<close>
          by (simp add: init_pass1_step sw)
      qed
    qed
  qed
qed

lemma init_pass2_count:
  "init_pass2 D Alpha i rg (e\<lparr>e_count := n\<rparr>)
     = map_option (\<lambda>(rg', e'). (rg', e'\<lparr>e_count := n\<rparr>)) (init_pass2 D Alpha i rg e)"
proof (induction D Alpha i rg e rule: init_pass2.induct)
  case (1 D Alpha i rg e)
  show ?case
  proof (cases "i < state_size Alpha")
    case False
    then show ?thesis by (simp add: init_pass2_done)
  next
    case True
    show ?thesis
    proof (cases "rd8 (e_memory e) i")
      case None
      then show ?thesis using True by (simp add: init_pass2_step)
    next
      case (Some v)
      show ?thesis
      proof (cases "wr8 (e_memory e) i (d_mix D (add8 rg v))")
        case None
        then show ?thesis using True Some by (simp add: init_pass2_step)
      next
        case (Some mm)
        have sw: "e\<lparr>e_count := n, e_memory := mm\<rparr> = e\<lparr>e_memory := mm, e_count := n\<rparr>"
          by simp
        show ?thesis
          using "1.IH" [OF True \<open>rd8 (e_memory e) i = Some v\<close> refl Some] True Some
            \<open>rd8 (e_memory e) i = Some v\<close>
          by (simp add: init_pass2_step sw)
      qed
    qed
  qed
qed


lemma init_Some:
  assumes "gen_ok D Alpha" "3 \<le> Alpha" "wf_engine Alpha e"
  shows "\<exists>e'. init D Alpha e = Some e' \<and> wf_engine Alpha e' \<and> e_count e' = state_size Alpha"
proof -
  define g where "g = d_golden D"
  define rg0 where "rg0 = (d_mix D ^^ 4) (g, g, g, g, g, g, g, g)"
  define e0 where "e0 = e\<lparr>e_a := 0, e_b := 0, e_c := 0\<rparr>"
  have d8: "8 dvd (state_size Alpha - 0)" using dvd8_state_size [OF assms(2)] by simp
  have wf0: "wf_engine Alpha e0" using assms(3) by (simp add: wf_engine_def e0_def)
  obtain rg1 m1 where p1: "init_pass1 D Alpha 0 rg0 e0 = Some (rg1, e0\<lparr>e_memory := m1\<rparr>)"
      "length m1 = state_size Alpha"
    using init_pass1_Some [OF d8 wf0, of D rg0] by blast
  have wf1: "wf_engine Alpha (e0\<lparr>e_memory := m1\<rparr>)" using wf0 p1(2) by (simp add: wf_engine_def)
  obtain rg2 m2 where p2: "init_pass2 D Alpha 0 rg1 (e0\<lparr>e_memory := m1\<rparr>) = Some (rg2, e0\<lparr>e_memory := m2\<rparr>)"
      "length m2 = state_size Alpha"
    using init_pass2_Some [OF d8 wf1, of D rg1] by auto
  have wf2: "wf_engine Alpha (e0\<lparr>e_memory := m2\<rparr>)" using wf0 p2(2) by (simp add: wf_engine_def)
  obtain e3 where e3: "d_do_isaac D Alpha (e0\<lparr>e_memory := m2\<rparr>) = Some e3" "wf_engine Alpha e3"
    using assms(1) wf2 unfolding gen_ok_def by blast
  have "init D Alpha e = Some (e3\<lparr>e_count := state_size Alpha\<rparr>)"
    unfolding init_def Let_def g_def [symmetric] rg0_def [symmetric] e0_def [symmetric]
    by (simp add: p1(1) p2(1) e3(1))
  then show ?thesis using e3(2) by (simp add: wf_engine_def)
qed

lemma init_count: 
  assumes "gen_ok D Alpha"
  shows "init D Alpha (e\<lparr>e_count := n\<rparr>) = init D Alpha e"
proof -
  define g where "g = d_golden D"
  define rg0 where "rg0 = (d_mix D ^^ 4) (g, g, g, g, g, g, g, g)"
  define e0 where "e0 = e\<lparr>e_a := 0, e_b := 0, e_c := 0\<rparr>"
  have sw: "e\<lparr>e_count := n, e_a := 0, e_b := 0, e_c := 0\<rparr> = e0\<lparr>e_count := n\<rparr>"
    by (simp add: e0_def)
  have dc: "\<And>x. d_do_isaac D Alpha (x\<lparr>e_count := n\<rparr>)
        = map_option (\<lambda>e'. e'\<lparr>e_count := n\<rparr>) (d_do_isaac D Alpha x)"
    using assms unfolding gen_ok_def by blast
  have l: "init D Alpha (e\<lparr>e_count := n\<rparr>)
     = init_pass1 D Alpha 0 rg0 (e0\<lparr>e_count := n\<rparr>) \<bind> (\<lambda>(rg, e).
        init_pass2 D Alpha 0 rg e \<bind> (\<lambda>(rg, e).
        d_do_isaac D Alpha e \<bind> (\<lambda>e. Some (e\<lparr>e_count := state_size Alpha\<rparr>))))"
    unfolding init_def Let_def g_def [symmetric] rg0_def [symmetric] sw by simp
  have r: "init D Alpha e
     = init_pass1 D Alpha 0 rg0 e0 \<bind> (\<lambda>(rg, e).
        init_pass2 D Alpha 0 rg e \<bind> (\<lambda>(rg, e).
        d_do_isaac D Alpha e \<bind> (\<lambda>e. Some (e\<lparr>e_count := state_size Alpha\<rparr>))))"
    unfolding init_def Let_def g_def [symmetric] rg0_def [symmetric] e0_def [symmetric] by simp
  show ?thesis
    unfolding l r init_pass1_count
    by (auto simp: init_pass2_count dc split: bind_split option.split)
qed

lemma init_mem:
  assumes "3 \<le> Alpha" "wf_engine Alpha e" "length M = state_size Alpha"
  shows "init D Alpha (e\<lparr>e_memory := M\<rparr>) = init D Alpha e"
proof -
  define e0 where "e0 = e\<lparr>e_a := 0, e_b := 0, e_c := 0\<rparr>"
  have sw: "e\<lparr>e_memory := M, e_a := 0, e_b := 0, e_c := 0\<rparr> = e0\<lparr>e_memory := M\<rparr>"
    by (simp add: e0_def)
  have d8: "8 dvd (state_size Alpha - 0)" using dvd8_state_size [OF assms(1)] by simp
  have wf0: "wf_engine Alpha e0" using assms(2) by (simp add: wf_engine_def e0_def)
  have "\<And>rg. init_pass1 D Alpha 0 rg (e0\<lparr>e_memory := M\<rparr>) = init_pass1 D Alpha 0 rg e0"
    using init_pass1_mem [OF d8 wf0 assms(3)] by simp
  then show ?thesis
    unfolding init_def Let_def sw e0_def [symmetric] by simp
qed

lemma init_indep:
  assumes "gen_ok D Alpha" "3 \<le> Alpha" "wf_engine Alpha e1" "wf_engine Alpha e2"
    "e_result e1 = e_result e2"
  shows "init D Alpha e1 = init D Alpha e2"
proof -
  have abc: "\<And>e x y z. init D Alpha (e\<lparr>e_a := x, e_b := y, e_c := z\<rparr>) = init D Alpha e"
    by (simp add: init_def)
  have "e2 = e1\<lparr>e_a := e_a e2, e_b := e_b e2, e_c := e_c e2, e_memory := e_memory e2, e_count := e_count e2\<rparr>"
    using assms(5) by simp
  then have "init D Alpha e2 = init D Alpha (e1\<lparr>e_a := e_a e2, e_b := e_b e2, e_c := e_c e2, e_memory := e_memory e2, e_count := e_count e2\<rparr>)"
    by simp
  also have "\<dots> = init D Alpha (e1\<lparr>e_a := e_a e2, e_b := e_b e2, e_c := e_c e2, e_memory := e_memory e2\<rparr>)"
    by (rule init_count [OF assms(1)])
  also have "\<dots> = init D Alpha (e1\<lparr>e_a := e_a e2, e_b := e_b e2, e_c := e_c e2\<rparr>)"
    using assms(3,4) by (intro init_mem [OF assms(2)]) (simp_all add: wf_engine_def)
  also have "\<dots> = init D Alpha e1" by (rule abc)
  finally show ?thesis by simp
qed

section \<open>Seeding and equality\<close>

lemma seed_eq:
  "wf_engine Alpha e \<Longrightarrow> seed D Alpha s e = init D Alpha (e\<lparr>e_result := replicate (state_size Alpha) s\<rparr>)"
  by (simp add: seed_def seed_fill wf_engine_def)

lemma seed_sseq_eq:
  "wf_engine Alpha e \<Longrightarrow> state_size Alpha \<le> length sa \<Longrightarrow>
   seed_sseq D Alpha sa e = init D Alpha (e\<lparr>e_result := take (state_size Alpha) sa\<rparr>)"
  by (simp add: seed_sseq_def seed_sseq_fill wf_engine_def)

lemma seed_range_eq:
  assumes "wf_engine Alpha e" "xs \<noteq> []"
  shows "seed_range D Alpha xs e = init D Alpha (e\<lparr>e_result := cyc (state_size Alpha) xs\<rparr>)"
proof -
  obtain it where "for_upto 0 (state_size Alpha)
        (\<lambda>i (it, res). do {
           let it = (if it = length xs then 0 else it);
           v \<leftarrow> rd xs it;
           res \<leftarrow> wr res i (ucast v);
           Some (it + 1, res)
         }) (0, e_result e) = Some (it, cyc (state_size Alpha) xs)"
    using seed_range_fill [of "e_result e" "state_size Alpha" xs] assms by (auto simp: wf_engine_def)
  then show ?thesis by (simp add: seed_range_def)
qed

lemma wf_result_update:
  "wf_engine Alpha e \<Longrightarrow> length R = state_size Alpha \<Longrightarrow> wf_engine Alpha (e\<lparr>e_result := R\<rparr>)"
  by (simp add: wf_engine_def)

lemma length_cyc: "length (cyc n xs) = n"
  by (simp add: cyc_def)

lemma seed_Some:
  assumes "gen_ok D Alpha" "3 \<le> Alpha" "wf_engine Alpha e"
  shows "\<exists>e'. seed D Alpha s e = Some e' \<and> wf_engine Alpha e' \<and> e_count e' = state_size Alpha"
  using init_Some [OF assms(1,2) wf_result_update [OF assms(3)], of "replicate (state_size Alpha) s"]
  by (simp add: seed_eq [OF assms(3)])

lemma seed_sseq_Some:
  assumes "gen_ok D Alpha" "3 \<le> Alpha" "wf_engine Alpha e" "length sa = state_size Alpha"
  shows "\<exists>e'. seed_sseq D Alpha sa e = Some e' \<and> wf_engine Alpha e' \<and> e_count e' = state_size Alpha"
  using init_Some [OF assms(1,2) wf_result_update [OF assms(3)], of "take (state_size Alpha) sa"] assms(4)
  by (simp add: seed_sseq_eq [OF assms(3)])

lemma seed_range_Some:
  assumes "gen_ok D Alpha" "3 \<le> Alpha" "wf_engine Alpha e" "xs \<noteq> []"
  shows "\<exists>e'. seed_range D Alpha xs e = Some e' \<and> wf_engine Alpha e' \<and> e_count e' = state_size Alpha"
  using init_Some [OF assms(1,2) wf_result_update [OF assms(3)], of "cyc (state_size Alpha) xs"]
  by (simp add: seed_range_eq [OF assms(3,4)] length_cyc)

lemma seed_indep:
  assumes "gen_ok D Alpha" "3 \<le> Alpha" "wf_engine Alpha e1" "wf_engine Alpha e2"
  shows "seed D Alpha s e1 = seed D Alpha s e2"
  unfolding seed_eq [OF assms(3)] seed_eq [OF assms(4)]
  using assms by (intro init_indep) (simp_all add: wf_engine_def)

lemma eq_loop_iff:
  "eq_loop Alpha i x y \<longleftrightarrow>
     (\<forall>j. i \<le> j \<and> j < state_size Alpha \<longrightarrow>
        e_result x ! j = e_result y ! j \<and> e_memory x ! j = e_memory y ! j)"
proof (induction Alpha i x y rule: eq_loop.induct)
  case (1 Alpha i x y)
  show ?case
  proof (cases "i < state_size Alpha")
    case False
    then show ?thesis by (subst eq_loop.simps) auto
  next
    case True
    show ?thesis
    proof (cases "e_result x ! i \<noteq> e_result y ! i \<or> e_memory x ! i \<noteq> e_memory y ! i")
      case True
      then show ?thesis using \<open>i < state_size Alpha\<close> by (subst eq_loop.simps) auto
    next
      case False
      have "eq_loop Alpha i x y = eq_loop Alpha (i + 1) x y"
        using False True by (subst eq_loop.simps) simp
      also have "\<dots> \<longleftrightarrow> (\<forall>j. i + 1 \<le> j \<and> j < state_size Alpha \<longrightarrow>
        e_result x ! j = e_result y ! j \<and> e_memory x ! j = e_memory y ! j)"
        using "1.IH" [OF True False] .
      also have "\<dots> \<longleftrightarrow> (\<forall>j. i \<le> j \<and> j < state_size Alpha \<longrightarrow>
        e_result x ! j = e_result y ! j \<and> e_memory x ! j = e_memory y ! j)"
      proof (intro iffI allI impI)
        fix j
        assume h: "\<forall>j. i + 1 \<le> j \<and> j < state_size Alpha \<longrightarrow>
          e_result x ! j = e_result y ! j \<and> e_memory x ! j = e_memory y ! j"
          and j: "i \<le> j \<and> j < state_size Alpha"
        show "e_result x ! j = e_result y ! j \<and> e_memory x ! j = e_memory y ! j"
        proof (cases "j = i")
          case True
          then show ?thesis using False by simp
        next
          case False
          then have "i + 1 \<le> j \<and> j < state_size Alpha" using j by simp
          then show ?thesis using h by blast
        qed
      next
        fix j
        assume h: "\<forall>j. i \<le> j \<and> j < state_size Alpha \<longrightarrow>
          e_result x ! j = e_result y ! j \<and> e_memory x ! j = e_memory y ! j"
          and j: "i + 1 \<le> j \<and> j < state_size Alpha"
        then have "i \<le> j \<and> j < state_size Alpha" by simp
        then show "e_result x ! j = e_result y ! j \<and> e_memory x ! j = e_memory y ! j"
          using h by blast
      qed
      finally show ?thesis .
    qed
  qed
qed

lemma operator_eq_iff:
  "operator_eq Alpha x y \<longleftrightarrow>
     e_a x = e_a y \<and> e_b x = e_b y \<and> e_c x = e_c y \<and> e_count x = e_count y \<and>
     (\<forall>j < state_size Alpha. e_result x ! j = e_result y ! j \<and> e_memory x ! j = e_memory y ! j)"
  by (auto simp: operator_eq_def eq_loop_iff)

lemma operator_eq_refl: "operator_eq Alpha x x"
  by (simp add: operator_eq_iff)

lemma operator_eq_wf:
  assumes "wf_engine Alpha x" "wf_engine Alpha y"
  shows "operator_eq Alpha x y \<longleftrightarrow> x = y"
proof
  assume e: "operator_eq Alpha x y"
  have "e_result x = e_result y"
    using e assms by (intro nth_equalityI) (simp_all add: operator_eq_iff wf_engine_def)
  moreover have "e_memory x = e_memory y"
    using e assms by (intro nth_equalityI) (simp_all add: operator_eq_iff wf_engine_def)
  ultimately show "x = y"
    using e by (simp add: operator_eq_iff)
next
  assume "x = y"
  then show "operator_eq Alpha x y" by (simp add: operator_eq_refl)
qed

section \<open>Consuming words\<close>

text \<open>
  C10. A call of \<^verbatim>\<open>operator()\<close> on an engine whose \<^verbatim>\<open>count_\<close> is not zero changes \<^verbatim>\<open>count_\<close>
  only (it becomes one less); every slot of \<^verbatim>\<open>result_\<close> and of \<^verbatim>\<open>memory_\<close> and the registers
  \<^verbatim>\<open>a_\<close>, \<^verbatim>\<open>b_\<close>, \<^verbatim>\<open>c_\<close> are as before. The call returns when \<^verbatim>\<open>count_\<close> is at most
  \<open>state_size\<close>. This holds for every derived class.
\<close>

theorem operator_call_frame:
  assumes "0 < e_count e"
  shows "(\<forall>w e'. operator_call D Alpha e = Some (w, e') \<longrightarrow>
            e_result e' = e_result e \<and> e_memory e' = e_memory e \<and>
            e_a e' = e_a e \<and> e_b e' = e_b e \<and> e_c e' = e_c e \<and> e_count e' = e_count e - 1)
       \<and> (wf_engine Alpha e \<and> e_count e \<le> state_size Alpha \<longrightarrow>
            (\<exists>w e'. operator_call D Alpha e = Some (w, e')))"
  using assms by (auto simp: operator_call_def Let_def rd_def wf_engine_def split: bind_splits)

theorem operator_call_frame_witness:
  "0 < e_count ex32 \<and> wf_engine 3 ex32 \<and> e_count ex32 \<le> state_size 3
   \<and> (\<exists>w e'. operator_call isaac 3 ex32 = Some (w, e')
        \<and> e_result e' = e_result ex32 \<and> e_memory e' = e_memory ex32
        \<and> e_a e' = e_a ex32 \<and> e_b e' = e_b ex32 \<and> e_c e' = e_c ex32 \<and> e_count e' = 4)"
proof -
  have h: "0 < e_count ex32" "wf_engine 3 ex32 \<and> e_count ex32 \<le> state_size 3"
    by (simp_all add: ex32_def wf_engine_def state_size_def)
  from operator_call_frame [OF h(1), of isaac 3] h(2)
  obtain w e' where c: "operator_call isaac 3 ex32 = Some (w, e')" by blast
  with operator_call_frame [OF h(1), of isaac 3]
  have "e_result e' = e_result ex32 \<and> e_memory e' = e_memory ex32 \<and>
        e_a e' = e_a ex32 \<and> e_b e' = e_b ex32 \<and> e_c e' = e_c ex32 \<and> e_count e' = e_count ex32 - 1"
    by blast
  then show ?thesis using h c by (simp add: ex32_def)
qed

lemma discard_0: "discard D Alpha 0 e = Some e"
  by (subst discard.simps) simp

lemma discard_step:
  "z \<noteq> 0 \<Longrightarrow> discard D Alpha z e =
     (case operator_call D Alpha e of None \<Rightarrow> None | Some (w, e') \<Rightarrow> discard D Alpha (z - 1) e')"
  by (subst discard.simps) (simp split: bind_split prod.split option.split)

text \<open>
  C4. \<^verbatim>\<open>discard(z)\<close> leaves the engine in the state that \<open>z\<close> calls of \<^verbatim>\<open>operator()\<close> in a row
  leave it in (and is undefined exactly when one of them is), for every engine, every
  derived class and every \<^verbatim>\<open>unsigned long long\<close> \<open>z\<close>; \<^verbatim>\<open>discard(0)\<close> changes nothing.
\<close>

theorem discard_next_times:
  "discard D Alpha z e = next_times D Alpha (unat z) e \<and> discard D Alpha 0 e = Some e"
proof -
  have "discard D Alpha z e = next_times D Alpha (unat z) e"
  proof (induction D Alpha z e rule: discard.induct)
    case (1 D Alpha z e)
    show ?case
    proof (cases "z = 0")
      case True
      then show ?thesis by (simp add: discard_0)
    next
      case False
      then have u: "unat z = Suc (unat (z - 1))"
        by (metis Suc_pred' unat_gt_0 unat_minus_one)
      show ?thesis
      proof (cases "operator_call D Alpha e")
        case None
        then show ?thesis using False by (simp add: discard_step u)
      next
        case (Some p)
        obtain w e' where p: "p = (w, e')" by (cases p)
        show ?thesis
          using "1.IH" [OF False, of "(w, e')" w e'] Some p False by (simp add: discard_step u)
      qed
    qed
  qed
  then show ?thesis by (simp add: discard_0)
qed

theorem discard_next_times_witness:
  "discard isaac 3 2 ex32 = next_times isaac 3 2 ex32
   \<and> next_times isaac 3 2 ex32 = Some (ex32\<lparr>e_count := 3\<rparr>)"
proof -
  have "unat (2 :: 64 word) = 2" by simp
  then have "discard isaac 3 2 ex32 = next_times isaac 3 2 ex32"
    using discard_next_times [of isaac 3 2 ex32] by simp
  moreover have "next_times isaac 3 (Suc (Suc 0)) ex32 = Some (ex32\<lparr>e_count := 3\<rparr>)"
    by (simp add: operator_call_def ex32_def rd_def)
  ultimately show ?thesis by (simp add: numeral_2_eq_2)
qed

lemma operator_call_zero:
  assumes "gen_ok D Alpha" "wf_engine Alpha e" "e_count e = 0"
  shows "\<exists>g. d_do_isaac D Alpha e = Some g \<and> wf_engine Alpha g \<and> e_c g = e_c e + 1 \<and>
     operator_call D Alpha e
       = Some (e_result g ! (state_size Alpha - 1), g\<lparr>e_count := state_size Alpha - 1\<rparr>)"
proof -
  obtain g where g: "d_do_isaac D Alpha e = Some g" "wf_engine Alpha g" "e_c g = e_c e + 1"
    using assms(1,2) unfolding gen_ok_def by blast
  have "d_do_isaac D Alpha (e\<lparr>e_count := size_max\<rparr>) = Some (g\<lparr>e_count := size_max\<rparr>)"
    using assms(1) g(1) unfolding gen_ok_def by simp
  moreover have "state_size Alpha - 1 < length (e_result g)"
    using g(2) state_size_pos [of Alpha] by (simp add: wf_engine_def)
  ultimately have "operator_call D Alpha e
       = Some (e_result g ! (state_size Alpha - 1), g\<lparr>e_count := state_size Alpha - 1\<rparr>)"
    using assms(3) by (simp add: operator_call_def rd_def)
  then show ?thesis using g by blast
qed

lemma operator_call_pos:
  assumes "wf_engine Alpha e" "0 < e_count e" "e_count e \<le> state_size Alpha"
  shows "operator_call D Alpha e = Some (e_result e ! (e_count e - 1), e\<lparr>e_count := e_count e - 1\<rparr>)"
  using assms by (simp add: operator_call_def rd_def wf_engine_def Let_def)

lemma operator_call_gen:
  assumes "gen_ok D Alpha" "wf_engine Alpha e" "e_count e \<le> state_size Alpha"
  shows "(e_count e = 0 \<longrightarrow>
           (\<exists>g. d_do_isaac D Alpha e = Some g \<and>
              operator_call D Alpha e
                = Some (e_result g ! (state_size Alpha - 1), g\<lparr>e_count := state_size Alpha - 1\<rparr>)))
       \<and> (0 < e_count e \<longrightarrow>
           operator_call D Alpha e
             = Some (e_result e ! (e_count e - 1), e\<lparr>e_count := e_count e - 1\<rparr>))"
  using operator_call_zero [OF assms(1,2)] operator_call_pos [OF assms(2) _ assms(3)] by blast

lemma d_do_isaac_isaac [simp]: "d_do_isaac isaac = do_isaac32"
  by (simp add: isaac_def)

lemma d_do_isaac_isaac64 [simp]: "d_do_isaac isaac64 = do_isaac64"
  by (simp add: isaac64_def)

text \<open>
  C1. With \<^verbatim>\<open>count_\<close> zero, \<^verbatim>\<open>operator()\<close> runs the generation step of the derived class, then
  returns slot \<open>state_size - 1\<close> of the new \<^verbatim>\<open>result_\<close> and leaves \<^verbatim>\<open>count_\<close> at
  \<open>state_size - 1\<close>. With \<^verbatim>\<open>count_\<close> above zero (and at most \<open>state_size\<close>) it takes one from
  \<^verbatim>\<open>count_\<close>, returns the slot of \<^verbatim>\<open>result_\<close> at the new \<^verbatim>\<open>count_\<close> and changes nothing else,
  so the generation step has not run. Both for \<^verbatim>\<open>isaac\<close> and for \<^verbatim>\<open>isaac64\<close>, where the
  generation step returns on every engine.
\<close>

theorem operator_call_spec:
  fixes x :: "32 word engine" and y :: "64 word engine"
  assumes "3 \<le> Alpha"
  shows "(wf_engine Alpha x \<and> e_count x = 0 \<longrightarrow>
           (\<exists>g. do_isaac32 Alpha x = Some g \<and>
              operator_call isaac Alpha x
                = Some (e_result g ! (state_size Alpha - 1), g\<lparr>e_count := state_size Alpha - 1\<rparr>)))
       \<and> (wf_engine Alpha x \<and> 0 < e_count x \<and> e_count x \<le> state_size Alpha \<longrightarrow>
           operator_call isaac Alpha x
             = Some (e_result x ! (e_count x - 1), x\<lparr>e_count := e_count x - 1\<rparr>))
       \<and> (wf_engine Alpha y \<and> e_count y = 0 \<longrightarrow>
           (\<exists>g. do_isaac64 Alpha y = Some g \<and>
              operator_call isaac64 Alpha y
                = Some (e_result g ! (state_size Alpha - 1), g\<lparr>e_count := state_size Alpha - 1\<rparr>)))
       \<and> (wf_engine Alpha y \<and> 0 < e_count y \<and> e_count y \<le> state_size Alpha \<longrightarrow>
           operator_call isaac64 Alpha y
             = Some (e_result y ! (e_count y - 1), y\<lparr>e_count := e_count y - 1\<rparr>))"
proof -
  have a: "wf_engine Alpha x \<Longrightarrow> e_count x = 0 \<Longrightarrow> (\<exists>g. do_isaac32 Alpha x = Some g \<and>
              operator_call isaac Alpha x
                = Some (e_result g ! (state_size Alpha - 1), g\<lparr>e_count := state_size Alpha - 1\<rparr>))"
    using operator_call_zero [OF isaac_gen_ok [OF assms], of x] by auto
  have b: "wf_engine Alpha y \<Longrightarrow> e_count y = 0 \<Longrightarrow> (\<exists>g. do_isaac64 Alpha y = Some g \<and>
              operator_call isaac64 Alpha y
                = Some (e_result g ! (state_size Alpha - 1), g\<lparr>e_count := state_size Alpha - 1\<rparr>))"
    using operator_call_zero [OF isaac64_gen_ok [OF assms], of y] by auto
  show ?thesis
    using a b operator_call_pos [of Alpha x isaac] operator_call_pos [of Alpha y isaac64] by blast
qed

theorem operator_call_spec_witness:
  "(\<exists>g. do_isaac32 3 (ex32\<lparr>e_count := 0\<rparr>) = Some g \<and>
      operator_call isaac 3 (ex32\<lparr>e_count := 0\<rparr>) = Some (e_result g ! 7, g\<lparr>e_count := 7\<rparr>))
   \<and> operator_call isaac 3 ex32 = Some (5, ex32\<lparr>e_count := 4\<rparr>)
   \<and> (\<exists>g. do_isaac64 3 ex64 = Some g \<and>
      operator_call isaac64 3 ex64 = Some (e_result g ! 7, g\<lparr>e_count := 7\<rparr>))
   \<and> operator_call isaac64 3 (ex64\<lparr>e_count := 8\<rparr>) = Some (8, ex64\<lparr>e_count := 7\<rparr>)"
proof -
  have w: "wf_engine 3 ex32" "wf_engine 3 (ex32\<lparr>e_count := 0\<rparr>)" "wf_engine 3 ex64"
    "wf_engine 3 (ex64\<lparr>e_count := 8\<rparr>)"
    by (simp_all add: wf_engine_def ex32_def ex64_def state_size_def)
  have s: "state_size 3 = 8" by (simp add: state_size_def)
  have c: "e_count ex32 = 5" "e_count ex64 = 0" "e_result ex32 ! 4 = 5"
    "e_result ex64 ! 7 = 8"
    by (simp_all add: ex32_def ex64_def)
  have le: "(3::nat) \<le> 3" by simp
  show ?thesis
    using operator_call_spec [OF le, of "ex32\<lparr>e_count := 0\<rparr>" ex64]
      operator_call_spec [OF le, of ex32 "ex64\<lparr>e_count := 8\<rparr>"] w
    by (simp add: s c)
qed

lemma operator_call_total:
  assumes "gen_ok D Alpha" "wf_engine Alpha e" "e_count e \<le> state_size Alpha"
  shows "\<exists>w e'. operator_call D Alpha e = Some (w, e') \<and> wf_engine Alpha e'
     \<and> e_count e' < state_size Alpha"
proof (cases "e_count e = 0")
  case True
  obtain g where g: "wf_engine Alpha g" "operator_call D Alpha e
       = Some (e_result g ! (state_size Alpha - 1), g\<lparr>e_count := state_size Alpha - 1\<rparr>)"
    using operator_call_zero [OF assms(1,2) True] by blast
  then show ?thesis using state_size_pos [of Alpha] by (simp add: wf_engine_def)
next
  case False
  then show ?thesis
    using operator_call_pos [OF assms(2) _ assms(3), of D] assms(2,3)
    by (simp add: wf_engine_def)
qed

lemma discard_total:
  "gen_ok D Alpha \<Longrightarrow> wf_engine Alpha e \<Longrightarrow> e_count e \<le> state_size Alpha \<Longrightarrow>
   \<exists>e'. discard D Alpha z e = Some e' \<and> wf_engine Alpha e' \<and> e_count e' \<le> state_size Alpha"
proof (induction D Alpha z e rule: discard.induct)
  case (1 D Alpha z e)
  show ?case
  proof (cases "z = 0")
    case True
    then show ?thesis using "1.prems" by (simp add: discard_0)
  next
    case False
    obtain w e' where c: "operator_call D Alpha e = Some (w, e')" "wf_engine Alpha e'"
      "e_count e' < state_size Alpha"
      using operator_call_total [OF "1.prems"] by blast
    have "\<exists>e''. discard D Alpha (z - 1) e' = Some e'' \<and> wf_engine Alpha e''
        \<and> e_count e'' \<le> state_size Alpha"
      using "1.IH" [OF False c(1) refl "1.prems"(1) c(2)] c(3) by simp
    then show ?thesis using False c(1) by (simp add: discard_step)
  qed
qed

lemma word_succ_neq: "(c :: 'a::len word) + 1 \<noteq> c"
  by simp

lemma operator_call_changes_gen:
  assumes "gen_ok D Alpha" "wf_engine Alpha x" "wf_engine Alpha u" "e_count x \<le> state_size Alpha"
  shows "\<exists>k w x'. copy Alpha x u = Some k \<and> operator_call D Alpha x = Some (w, x')
     \<and> \<not> operator_eq Alpha x' k
     \<and> (0 < e_count x \<longrightarrow> e_count x' \<noteq> e_count k)
     \<and> (e_count x = 0 \<longrightarrow> e_c x' = e_c k + 1 \<and> e_c x' \<noteq> e_c k)"
proof (cases "e_count x = 0")
  case True
  obtain g where g: "e_c g = e_c x + 1" "operator_call D Alpha x
       = Some (e_result g ! (state_size Alpha - 1), g\<lparr>e_count := state_size Alpha - 1\<rparr>)"
    using operator_call_zero [OF assms(1,2) True] by blast
  show ?thesis
    using g True copy_eq [OF assms(2,3)] by (simp add: operator_eq_iff)
next
  case False
  then show ?thesis
    using operator_call_pos [OF assms(2) _ assms(4), of D] copy_eq [OF assms(2,3)]
    by (simp add: operator_eq_iff)
qed

text \<open>
  C8. One call of \<^verbatim>\<open>operator()\<close> leaves the engine unequal, by \<^verbatim>\<open>operator==\<close>, to a copy taken
  just before the call: with \<^verbatim>\<open>count_\<close> above zero the two differ in \<^verbatim>\<open>count_\<close>, with \<^verbatim>\<open>count_\<close>
  zero the generation step has added one to \<^verbatim>\<open>c_\<close>, which wraps and so differs from before.
  For \<^verbatim>\<open>isaac\<close> and \<^verbatim>\<open>isaac64\<close>, on every engine with \<^verbatim>\<open>count_\<close> at most \<open>state_size\<close>; the
  copy is made by the copy constructor into any storage \<open>u\<close>, \<open>v\<close>.
\<close>

theorem operator_call_changes:
  fixes x u :: "32 word engine" and y v :: "64 word engine"
  assumes "3 \<le> Alpha"
  shows "(wf_engine Alpha x \<and> wf_engine Alpha u \<and> e_count x \<le> state_size Alpha \<longrightarrow>
           (\<exists>k w x'. copy Alpha x u = Some k \<and> operator_call isaac Alpha x = Some (w, x')
              \<and> \<not> operator_eq Alpha x' k
              \<and> (0 < e_count x \<longrightarrow> e_count x' \<noteq> e_count k)
              \<and> (e_count x = 0 \<longrightarrow> e_c x' = e_c k + 1 \<and> e_c x' \<noteq> e_c k)))
       \<and> (wf_engine Alpha y \<and> wf_engine Alpha v \<and> e_count y \<le> state_size Alpha \<longrightarrow>
           (\<exists>k w y'. copy Alpha y v = Some k \<and> operator_call isaac64 Alpha y = Some (w, y')
              \<and> \<not> operator_eq Alpha y' k
              \<and> (0 < e_count y \<longrightarrow> e_count y' \<noteq> e_count k)
              \<and> (e_count y = 0 \<longrightarrow> e_c y' = e_c k + 1 \<and> e_c y' \<noteq> e_c k)))"
  using operator_call_changes_gen [OF isaac_gen_ok [OF assms], of x u]
    operator_call_changes_gen [OF isaac64_gen_ok [OF assms], of y v]
  by blast

theorem operator_call_changes_witness:
  "(\<exists>k w x'. copy 3 ex32 ex32 = Some k \<and> operator_call isaac 3 ex32 = Some (w, x')
       \<and> \<not> operator_eq 3 x' k \<and> e_count x' \<noteq> e_count k)
   \<and> (\<exists>k w y'. copy 3 ex64 ex64 = Some k \<and> operator_call isaac64 3 ex64 = Some (w, y')
       \<and> \<not> operator_eq 3 y' k \<and> e_c y' = e_c k + 1 \<and> e_c y' \<noteq> e_c k)"
proof -
  have w: "wf_engine 3 ex32" "wf_engine 3 ex64" "e_count ex32 \<le> state_size 3"
    "e_count ex64 \<le> state_size 3" "0 < e_count ex32" "e_count ex64 = 0"
    by (simp_all add: wf_engine_def ex32_def ex64_def state_size_def)
  have le: "(3::nat) \<le> 3" by simp
  show ?thesis
    using operator_call_changes [OF le, of ex32 ex32 ex64 ex64] w by blast
qed

lemma count_invariant_gen:
  assumes "gen_ok D Alpha" "3 \<le> Alpha"
  shows "count_invariant D Alpha"
proof -
  have 1: "\<forall>e s. wf_engine Alpha e \<longrightarrow>
        (\<exists>e'. seed D Alpha s e = Some e' \<and> wf_engine Alpha e' \<and> e_count e' = state_size Alpha
           \<and> count_ok Alpha e')"
  proof (intro allI impI)
    fix e :: "'a word engine" and s
    assume "wf_engine Alpha e"
    from seed_Some [OF assms this, of s]
    obtain e' where "seed D Alpha s e = Some e'" "wf_engine Alpha e'" "e_count e' = state_size Alpha"
      by blast
    then show "\<exists>e'. seed D Alpha s e = Some e' \<and> wf_engine Alpha e' \<and> e_count e' = state_size Alpha
           \<and> count_ok Alpha e'"
      by (simp add: count_ok_def)
  qed
  have 2: "\<forall>e seed_array. wf_engine Alpha e \<and> length seed_array = state_size Alpha \<longrightarrow>
        (\<exists>e'. seed_sseq D Alpha seed_array e = Some e' \<and> wf_engine Alpha e'
           \<and> e_count e' = state_size Alpha \<and> count_ok Alpha e')"
  proof (intro allI impI)
    fix e :: "'a word engine" and seed_array :: "'a word list"
    assume a: "wf_engine Alpha e \<and> length seed_array = state_size Alpha"
    from seed_sseq_Some [OF assms, of e seed_array] a
    obtain e' where "seed_sseq D Alpha seed_array e = Some e'" "wf_engine Alpha e'"
      "e_count e' = state_size Alpha"
      by blast
    then show "\<exists>e'. seed_sseq D Alpha seed_array e = Some e' \<and> wf_engine Alpha e'
           \<and> e_count e' = state_size Alpha \<and> count_ok Alpha e'"
      by (simp add: count_ok_def)
  qed
  have 3: "\<forall>e (xs :: 'a word list). wf_engine Alpha e \<and> xs \<noteq> [] \<longrightarrow>
        (\<exists>e'. seed_range D Alpha xs e = Some e' \<and> wf_engine Alpha e'
           \<and> e_count e' = state_size Alpha \<and> count_ok Alpha e')"
  proof (intro allI impI)
    fix e :: "'a word engine" and xs :: "'a word list"
    assume a: "wf_engine Alpha e \<and> xs \<noteq> []"
    from seed_range_Some [OF assms, of e xs] a
    obtain e' where "seed_range D Alpha xs e = Some e'" "wf_engine Alpha e'"
      "e_count e' = state_size Alpha"
      by blast
    then show "\<exists>e'. seed_range D Alpha xs e = Some e' \<and> wf_engine Alpha e'
           \<and> e_count e' = state_size Alpha \<and> count_ok Alpha e'"
      by (simp add: count_ok_def)
  qed
  have 4: "\<forall>e. wf_engine Alpha e \<and> count_ok Alpha e \<longrightarrow>
        (\<exists>w e'. operator_call D Alpha e = Some (w, e') \<and> wf_engine Alpha e' \<and> count_ok Alpha e')"
  proof (intro allI impI)
    fix e :: "'a word engine"
    assume a: "wf_engine Alpha e \<and> count_ok Alpha e"
    then have "e_count e \<le> state_size Alpha" by (simp add: count_ok_def)
    from operator_call_total [OF assms(1) _ this] a
    obtain w e' where "operator_call D Alpha e = Some (w, e')" "wf_engine Alpha e'"
      "e_count e' < state_size Alpha"
      by blast
    then show "\<exists>w e'. operator_call D Alpha e = Some (w, e') \<and> wf_engine Alpha e' \<and> count_ok Alpha e'"
      by (simp add: count_ok_def)
  qed
  have 5: "\<forall>e z. wf_engine Alpha e \<and> count_ok Alpha e \<longrightarrow>
        (\<exists>e'. discard D Alpha z e = Some e' \<and> wf_engine Alpha e' \<and> count_ok Alpha e')"
  proof (intro allI impI)
    fix e :: "'a word engine" and z
    assume a: "wf_engine Alpha e \<and> count_ok Alpha e"
    then have "e_count e \<le> state_size Alpha" by (simp add: count_ok_def)
    from discard_total [OF assms(1) _ this, of z] a
    show "\<exists>e'. discard D Alpha z e = Some e' \<and> wf_engine Alpha e' \<and> count_ok Alpha e'"
      by (simp add: count_ok_def)
  qed
  have 6: "\<forall>(e :: 'a word engine) u. wf_engine Alpha e \<and> wf_engine Alpha u \<and> count_ok Alpha e \<longrightarrow>
        (\<exists>e'. copy Alpha e u = Some e' \<and> wf_engine Alpha e' \<and> count_ok Alpha e')"
    by (simp add: copy_eq)
  have 7: "\<forall>e. wf_engine Alpha e \<and> e_count e = 0 \<longrightarrow>
        (\<exists>g. d_do_isaac D Alpha e = Some g \<and>
           operator_call D Alpha e
             = Some (e_result g ! (state_size Alpha - 1), g\<lparr>e_count := state_size Alpha - 1\<rparr>))"
  proof (intro allI impI)
    fix e :: "'a word engine"
    assume a: "wf_engine Alpha e \<and> e_count e = 0"
    then have "wf_engine Alpha e" "e_count e = 0" by simp_all
    from operator_call_zero [OF assms(1) this]
    obtain g where "d_do_isaac D Alpha e = Some g" "operator_call D Alpha e
             = Some (e_result g ! (state_size Alpha - 1), g\<lparr>e_count := state_size Alpha - 1\<rparr>)"
      by blast
    then show "\<exists>g. d_do_isaac D Alpha e = Some g \<and>
           operator_call D Alpha e
             = Some (e_result g ! (state_size Alpha - 1), g\<lparr>e_count := state_size Alpha - 1\<rparr>)"
      by simp
  qed
  show ?thesis
    unfolding count_invariant_def
    by (intro conjI) (rule 1 2 3 4 5 6 7)+
qed


text \<open>
  C9. The predicate \<open>0 \<le> count \<le> state_size\<close> holds after each of the three \<^verbatim>\<open>seed\<close>
  functions, which leave \<^verbatim>\<open>count_ = state_size\<close>, and \<^verbatim>\<open>operator()\<close>, \<^verbatim>\<open>discard\<close> and the copy
  constructor keep it; \<^verbatim>\<open>operator()\<close> on \<^verbatim>\<open>count_ = 0\<close> runs the generation step and returns
  a word of the buffer it filled. All of these return. For \<^verbatim>\<open>isaac\<close> and \<^verbatim>\<open>isaac64\<close> with
  \<open>Alpha\<close> at least three (\<open>count_invariant\<close> spells the statement out).
\<close>

theorem count_invariant_isaac:
  assumes "3 \<le> Alpha"
  shows "count_invariant isaac Alpha \<and> count_invariant isaac64 Alpha"
  using count_invariant_gen [OF isaac_gen_ok [OF assms] assms]
    count_invariant_gen [OF isaac64_gen_ok [OF assms] assms]
  by simp

theorem count_invariant_isaac_witness:
  "(\<exists>e'. seed isaac 3 1234 ex32 = Some e' \<and> e_count e' = 8)
   \<and> (\<exists>e'. seed_sseq isaac 3 [1, 2, 3, 4, 5, 6, 7, 8] ex32 = Some e' \<and> e_count e' = 8)
   \<and> (\<exists>e'. seed_range isaac64 3 [1, 2, 3 :: 64 word] ex64 = Some e' \<and> e_count e' = 8)
   \<and> (\<exists>w e'. operator_call isaac 3 ex32 = Some (w, e') \<and> e_count e' \<le> 8)
   \<and> (\<exists>e'. discard isaac64 3 100 ex64 = Some e' \<and> e_count e' \<le> 8)
   \<and> (\<exists>e'. copy 3 ex32 ex32 = Some e' \<and> e_count e' \<le> 8)
   \<and> (\<exists>g. do_isaac64 3 ex64 = Some g \<and>
          operator_call isaac64 3 ex64 = Some (e_result g ! 7, g\<lparr>e_count := 7\<rparr>))"
proof -
  have s: "state_size 3 = 8" by (simp add: state_size_def)
  have w32: "wf_engine 3 ex32" and w64: "wf_engine 3 ex64"
    by (simp_all add: wf_engine_def ex32_def ex64_def state_size_def)
  have c32: "count_ok 3 ex32" and c64: "count_ok 3 ex64" and z64: "e_count ex64 = 0"
    by (simp_all add: ex32_def ex64_def state_size_def count_ok_def)
  have le: "(3::nat) \<le> 3" by simp
  note i = count_invariant_isaac [OF le, THEN conjunct1, unfolded count_invariant_def]
  note j = count_invariant_isaac [OF le, THEN conjunct2, unfolded count_invariant_def]
  note i1 = i [THEN conjunct1, rule_format]
  note i2 = i [THEN conjunct2, THEN conjunct1, rule_format]
  note j3 = j [THEN conjunct2, THEN conjunct2, THEN conjunct1, rule_format]
  note i4 = i [THEN conjunct2, THEN conjunct2, THEN conjunct2, THEN conjunct1, rule_format]
  note j5 = j [THEN conjunct2, THEN conjunct2, THEN conjunct2, THEN conjunct2, THEN conjunct1,
    rule_format]
  note i6 = i [THEN conjunct2, THEN conjunct2, THEN conjunct2, THEN conjunct2, THEN conjunct2,
    THEN conjunct1, rule_format]
  note j7 = j [THEN conjunct2, THEN conjunct2, THEN conjunct2, THEN conjunct2, THEN conjunct2,
    THEN conjunct2, rule_format]
  have 1: "\<exists>e'. seed isaac 3 1234 ex32 = Some e' \<and> e_count e' = 8"
    using i1 [OF w32, of 1234] by (auto simp: s)
  have 2: "\<exists>e'. seed_sseq isaac 3 [1, 2, 3, 4, 5, 6, 7, 8] ex32 = Some e' \<and> e_count e' = 8"
    using i2 [of ex32 "[1, 2, 3, 4, 5, 6, 7, 8]"] w32 by (auto simp: s)
  have 3: "\<exists>e'. seed_range isaac64 3 [1, 2, 3 :: 64 word] ex64 = Some e' \<and> e_count e' = 8"
    using j3 [of ex64 "[1, 2, 3]"] w64 by (auto simp: s)
  have 4: "\<exists>w e'. operator_call isaac 3 ex32 = Some (w, e') \<and> e_count e' \<le> 8"
    using i4 [of ex32] w32 c32 by (auto simp: s count_ok_def)
  have 5: "\<exists>e'. discard isaac64 3 100 ex64 = Some e' \<and> e_count e' \<le> 8"
    using j5 [of ex64 100] w64 c64 by (auto simp: s count_ok_def)
  have 6: "\<exists>e'. copy 3 ex32 ex32 = Some e' \<and> e_count e' \<le> 8"
    using i6 [of ex32 ex32] w32 c32 by (auto simp: s count_ok_def)
  have 7: "\<exists>g. do_isaac64 3 ex64 = Some g \<and>
          operator_call isaac64 3 ex64 = Some (e_result g ! 7, g\<lparr>e_count := 7\<rparr>)"
    using j7 [of ex64] w64 z64 by (auto simp: s)
  show ?thesis
    by (intro conjI) (rule 1 2 3 4 5 6 7)+
qed

lemma seed_construct_gen:
  assumes "gen_ok D Alpha" "3 \<le> Alpha" "wf_engine Alpha u" "wf_engine Alpha u'" "wf_engine Alpha x"
  shows "\<exists>e1 e0 e2. construct D Alpha s u = Some e1 \<and> construct D Alpha default_seed u' = Some e0
     \<and> seed D Alpha s e0 = Some e2 \<and> operator_eq Alpha e1 e2
     \<and> seed D Alpha default_seed x = Some e0"
proof -
  obtain e1 where e1: "seed D Alpha s u = Some e1" "wf_engine Alpha e1"
    using seed_Some [OF assms(1,2,3), of s] by blast
  obtain e0 where e0: "seed D Alpha default_seed u' = Some e0" "wf_engine Alpha e0"
    using seed_Some [OF assms(1,2,4), of default_seed] by blast
  have e2: "seed D Alpha s e0 = Some e1"
    using seed_indep [OF assms(1,2) e0(2) assms(3), of s] e1(1) by simp
  have e3: "seed D Alpha default_seed x = Some e0"
    using seed_indep [OF assms(1,2,5,4), of default_seed] e0(1) by simp
  show ?thesis
    using e1(1) e0(1) e2 e3 by (simp add: construct_def operator_eq_refl)
qed

text \<open>
  C5. An engine constructed with the seed \<open>s\<close> is equal, by \<^verbatim>\<open>operator==\<close>, to one that was
  constructed with no argument and then given \<^verbatim>\<open>seed(s)\<close>; and \<^verbatim>\<open>seed()\<close> with no argument, on an
  engine \<open>x\<close> in any state, gives the state of an engine just constructed with no argument.
  The default seed is the zero word. The storage \<open>u\<close>, \<open>u'\<close> of the engines under
  construction holds anything. For \<^verbatim>\<open>isaac\<close> and \<^verbatim>\<open>isaac64\<close> with \<open>Alpha\<close> at least three.
\<close>

theorem seed_construct:
  fixes u u' x :: "32 word engine" and v v' y :: "64 word engine"
  assumes "3 \<le> Alpha"
  shows "(wf_engine Alpha u \<and> wf_engine Alpha u' \<and> wf_engine Alpha x \<longrightarrow>
           (\<exists>e1 e0 e2. construct isaac Alpha s u = Some e1
              \<and> construct isaac Alpha default_seed u' = Some e0
              \<and> seed isaac Alpha s e0 = Some e2 \<and> operator_eq Alpha e1 e2
              \<and> seed isaac Alpha default_seed x = Some e0))
       \<and> (wf_engine Alpha v \<and> wf_engine Alpha v' \<and> wf_engine Alpha y \<longrightarrow>
           (\<exists>e1 e0 e2. construct isaac64 Alpha t v = Some e1
              \<and> construct isaac64 Alpha default_seed v' = Some e0
              \<and> seed isaac64 Alpha t e0 = Some e2 \<and> operator_eq Alpha e1 e2
              \<and> seed isaac64 Alpha default_seed y = Some e0))
       \<and> (default_seed :: 32 word) = 0 \<and> (default_seed :: 64 word) = 0"
  using seed_construct_gen [OF isaac_gen_ok [OF assms] assms, of u u' x s]
    seed_construct_gen [OF isaac64_gen_ok [OF assms] assms, of v v' y t]
  by (simp add: default_seed_def)

theorem seed_construct_witness:
  "(\<exists>e1 e0 e2. construct isaac 3 1234 ex32 = Some e1
       \<and> construct isaac 3 default_seed (ex32\<lparr>e_memory := e_result ex32\<rparr>) = Some e0
       \<and> seed isaac 3 1234 e0 = Some e2 \<and> operator_eq 3 e1 e2
       \<and> seed isaac 3 default_seed (ex32\<lparr>e_count := 0\<rparr>) = Some e0)
   \<and> (\<exists>e1 e0 e2. construct isaac64 3 1234 ex64 = Some e1
       \<and> construct isaac64 3 default_seed (ex64\<lparr>e_memory := e_result ex64\<rparr>) = Some e0
       \<and> seed isaac64 3 1234 e0 = Some e2 \<and> operator_eq 3 e1 e2
       \<and> seed isaac64 3 default_seed (ex64\<lparr>e_count := 3\<rparr>) = Some e0)"
proof -
  have w: "wf_engine 3 ex32 \<and> wf_engine 3 (ex32\<lparr>e_memory := e_result ex32\<rparr>)
      \<and> wf_engine 3 (ex32\<lparr>e_count := 0\<rparr>)"
    "wf_engine 3 ex64 \<and> wf_engine 3 (ex64\<lparr>e_memory := e_result ex64\<rparr>)
      \<and> wf_engine 3 (ex64\<lparr>e_count := 3\<rparr>)"
    by (simp_all add: wf_engine_def ex32_def ex64_def state_size_def)
  have le: "(3::nat) \<le> 3" by simp
  note t = seed_construct [OF le, of ex32 "ex32\<lparr>e_memory := e_result ex32\<rparr>" "ex32\<lparr>e_count := 0\<rparr>" 1234
      ex64 "ex64\<lparr>e_memory := e_result ex64\<rparr>" "ex64\<lparr>e_count := 3\<rparr>" 1234]
  show ?thesis
    using t [THEN conjunct1, rule_format, OF w(1)]
      t [THEN conjunct2, THEN conjunct1, rule_format, OF w(2)]
    by (rule conjI)
qed

lemma nth_concat_replicate:
  "i < m * length xs \<Longrightarrow> concat (replicate m xs) ! i = xs ! (i mod length xs)"
proof (induction m arbitrary: i)
  case 0
  then show ?case by simp
next
  case (Suc m)
  show ?case
  proof (cases "i < length xs")
    case True
    then show ?thesis by (simp add: nth_append)
  next
    case False
    then have "i - length xs < m * length xs" using Suc.prems by simp
    then have "concat (replicate m xs) ! (i - length xs) = xs ! ((i - length xs) mod length xs)"
      by (rule Suc.IH)
    moreover have "(i - length xs) mod length xs = i mod length xs"
      using False by (simp add: le_mod_geq)
    ultimately show ?thesis using False by (simp add: nth_append)
  qed
qed

lemma ceil_div_mult: "0 < k \<Longrightarrow> n \<le> ((n + k - 1) div k) * k"
  for n k :: nat
proof -
  assume k: "0 < k"
  have "n + k - 1 = ((n + k - 1) div k) * k + (n + k - 1) mod k" by simp
  moreover have "(n + k - 1) mod k \<le> k - 1" using k by (simp add: mod_le_divisor less_Suc_eq_le [symmetric])
  ultimately show ?thesis using k by linarith
qed

lemma cyc_repeat:
  fixes xs :: "'b::len word list"
  assumes "xs \<noteq> []"
  shows "(cyc n (take n (concat (replicate ((n + length xs - 1) div length xs) xs))) :: 'a::len word list)
       = cyc n xs"
proof -
  define m where "m = (n + length xs - 1) div length xs"
  define ys where "ys = take n (concat (replicate m xs))"
  have k: "0 < length xs" using assms by simp
  have mk: "n \<le> m * length xs" unfolding m_def by (rule ceil_div_mult [OF k])
  have len: "length ys = n"
    using mk by (simp add: ys_def length_concat sum_list_replicate)
  have nth: "\<And>i. i < n \<Longrightarrow> ys ! i = xs ! (i mod length xs)"
    using mk by (simp add: ys_def nth_concat_replicate)
  have "(cyc n ys :: 'a word list) = cyc n xs"
    unfolding cyc_def len using nth by (intro map_cong) simp_all
  then show ?thesis by (simp add: ys_def m_def)
qed

lemma seed_range_cyclic_gen:
  fixes xs :: "'b::len word list"
  assumes "gen_ok D Alpha" "3 \<le> Alpha" "wf_engine Alpha e" "wf_engine Alpha e2"
    "xs \<noteq> []" "length xs < state_size Alpha"
  shows "(\<exists>e'. seed_range D Alpha xs e = Some e'
              \<and> seed_range D Alpha
                (take (state_size Alpha)
                   (concat (replicate ((state_size Alpha + length xs - 1) div length xs) xs))) e2
                = Some e'
              \<and> init D Alpha
                (e\<lparr>e_result := (map (\<lambda>i. ucast (xs ! (i mod length xs))) [0..<state_size Alpha])\<rparr>)
                = Some e')"
proof -
  define ys where "ys = take (state_size Alpha)
             (concat (replicate ((state_size Alpha + length xs - 1) div length xs) xs))"
  have k: "0 < length xs" using assms(5) by simp
  have "state_size Alpha \<le> ((state_size Alpha + length xs - 1) div length xs) * length xs"
    by (rule ceil_div_mult [OF k])
  then have "length ys = state_size Alpha"
    by (simp add: ys_def length_concat sum_list_replicate)
  then have ne: "ys \<noteq> []" using state_size_pos [of Alpha] by auto
  obtain e' where e': "seed_range D Alpha xs e = Some e'"
    using seed_range_Some [OF assms(1,2,3,5)] by blast
  have i: "init D Alpha (e\<lparr>e_result := cyc (state_size Alpha) xs\<rparr>) = Some e'"
    using seed_range_eq [OF assms(3,5), of D] e' by simp
  have w1: "wf_engine Alpha (e\<lparr>e_result := cyc (state_size Alpha) xs\<rparr>)"
    and w2: "wf_engine Alpha (e2\<lparr>e_result := cyc (state_size Alpha) xs\<rparr>)"
    using assms(3,4) by (simp_all add: wf_engine_def length_cyc)
  have "seed_range D Alpha ys e2 = init D Alpha (e2\<lparr>e_result := cyc (state_size Alpha) ys\<rparr>)"
    by (rule seed_range_eq [OF assms(4) ne])
  also have "(cyc (state_size Alpha) ys :: 'a word list) = cyc (state_size Alpha) xs"
    unfolding ys_def by (rule cyc_repeat [OF assms(5)])
  also have "init D Alpha (e2\<lparr>e_result := cyc (state_size Alpha) xs\<rparr>)
      = init D Alpha (e\<lparr>e_result := cyc (state_size Alpha) xs\<rparr>)"
    by (rule init_indep [OF assms(1,2) w2 w1]) simp
  finally have "seed_range D Alpha ys e2 = Some e'" using i by simp
  then show ?thesis
    using e' i by (simp add: ys_def cyc_def)
qed

text \<open>
  C6. Seeding from a range \<open>xs\<close> that is not empty and has fewer than \<open>state_size\<close> words
  reads the range again from its start each time its end is reached, until every slot of
  \<^verbatim>\<open>result_\<close> is filled: slot \<open>i\<close> receives \<open>xs ! (i mod length xs)\<close>, converted to
  \<^verbatim>\<open>result_type\<close>, and \<^verbatim>\<open>init\<close> runs on that buffer. The engine this leaves (all of it, the
  memory array included) is the engine left by seeding, from any engine \<open>x'\<close>, with \<open>xs\<close>
  repeated \<open>\<lceil>state_size / length xs\<rceil>\<close> times and cut to \<open>state_size\<close> words. Both seedings
  return, and neither depends on what the engine held before. For \<^verbatim>\<open>isaac\<close> and \<^verbatim>\<open>isaac64\<close>
  with \<open>Alpha\<close> at least three, and words of any width in the range.
\<close>

theorem seed_range_cyclic:
  fixes xs :: "'b::len word list" and x x' :: "32 word engine" and y y' :: "64 word engine"
  assumes "3 \<le> Alpha" "xs \<noteq> []" "length xs < state_size Alpha"
  shows "(wf_engine Alpha x \<and> wf_engine Alpha x' \<longrightarrow>
           (\<exists>e'. seed_range isaac Alpha xs x = Some e'
              \<and> seed_range isaac Alpha
                (take (state_size Alpha)
                   (concat (replicate ((state_size Alpha + length xs - 1) div length xs) xs))) x'
                = Some e'
              \<and> init isaac Alpha
                (x\<lparr>e_result := (map (\<lambda>i. ucast (xs ! (i mod length xs))) [0..<state_size Alpha])\<rparr>)
                = Some e'))
       \<and> (wf_engine Alpha y \<and> wf_engine Alpha y' \<longrightarrow>
           (\<exists>e'. seed_range isaac64 Alpha xs y = Some e'
              \<and> seed_range isaac64 Alpha
                (take (state_size Alpha)
                   (concat (replicate ((state_size Alpha + length xs - 1) div length xs) xs))) y'
                = Some e'
              \<and> init isaac64 Alpha
                (y\<lparr>e_result := (map (\<lambda>i. ucast (xs ! (i mod length xs))) [0..<state_size Alpha])\<rparr>)
                = Some e'))"
proof (intro conjI impI)
  assume "wf_engine Alpha x \<and> wf_engine Alpha x'"
  then have w: "wf_engine Alpha x" "wf_engine Alpha x'" by simp_all
  show "(\<exists>e'. seed_range isaac Alpha xs x = Some e'
              \<and> seed_range isaac Alpha
                (take (state_size Alpha)
                   (concat (replicate ((state_size Alpha + length xs - 1) div length xs) xs))) x'
                = Some e'
              \<and> init isaac Alpha
                (x\<lparr>e_result := (map (\<lambda>i. ucast (xs ! (i mod length xs))) [0..<state_size Alpha])\<rparr>)
                = Some e')"
    by (rule seed_range_cyclic_gen [OF isaac_gen_ok [OF assms(1)] assms(1) w assms(2,3)])
next
  assume "wf_engine Alpha y \<and> wf_engine Alpha y'"
  then have w: "wf_engine Alpha y" "wf_engine Alpha y'" by simp_all
  show "(\<exists>e'. seed_range isaac64 Alpha xs y = Some e'
              \<and> seed_range isaac64 Alpha
                (take (state_size Alpha)
                   (concat (replicate ((state_size Alpha + length xs - 1) div length xs) xs))) y'
                = Some e'
              \<and> init isaac64 Alpha
                (y\<lparr>e_result := (map (\<lambda>i. ucast (xs ! (i mod length xs))) [0..<state_size Alpha])\<rparr>)
                = Some e')"
    by (rule seed_range_cyclic_gen [OF isaac64_gen_ok [OF assms(1)] assms(1) w assms(2,3)])
qed

theorem seed_range_cyclic_witness:
  "(\<exists>e'. seed_range isaac 3 [1, 2, 3 :: 16 word] ex32 = Some e'
       \<and> seed_range isaac 3 [1, 2, 3, 1, 2, 3, 1, 2 :: 16 word] (ex32\<lparr>e_result := e_memory ex32\<rparr>)
           = Some e'
       \<and> init isaac 3 (ex32\<lparr>e_result := [1, 2, 3, 1, 2, 3, 1, 2]\<rparr>) = Some e')
   \<and> (\<exists>e'. seed_range isaac64 3 [1, 2, 3 :: 16 word] ex64 = Some e'
       \<and> seed_range isaac64 3 [1, 2, 3, 1, 2, 3, 1, 2 :: 16 word] (ex64\<lparr>e_count := 5\<rparr>)
           = Some e'
       \<and> init isaac64 3 (ex64\<lparr>e_result := [1, 2, 3, 1, 2, 3, 1, 2]\<rparr>) = Some e')"
proof -
  have w: "wf_engine 3 ex32 \<and> wf_engine 3 (ex32\<lparr>e_result := e_memory ex32\<rparr>)"
    "wf_engine 3 ex64 \<and> wf_engine 3 (ex64\<lparr>e_count := 5\<rparr>)"
    by (simp_all add: wf_engine_def ex32_def ex64_def state_size_def)
  have h: "(3::nat) \<le> 3" "[1, 2, 3 :: 16 word] \<noteq> []" "length [1, 2, 3 :: 16 word] < state_size 3"
    by (simp_all add: state_size_def)
  have a: "state_size 3 = 8" by (simp add: state_size_def)
  have r: "take (state_size 3)
      (concat (replicate ((state_size 3 + length [1, 2, 3 :: 16 word] - 1) div length [1, 2, 3 :: 16 word])
         [1, 2, 3 :: 16 word])) = [1, 2, 3, 1, 2, 3, 1, 2]"
  proof -
    have b: "(8 + length [1, 2, 3 :: 16 word] - 1) div length [1, 2, 3 :: 16 word] = Suc (Suc (Suc 0))"
      by simp
    show ?thesis unfolding a b by simp
  qed
  have c32: "map (\<lambda>i. ucast ([1, 2, 3 :: 16 word] ! (i mod length [1, 2, 3 :: 16 word]))) [0..<state_size 3]
      = [1, 2, 3, 1, 2, 3, 1, 2 :: 32 word]"
    unfolding a by (simp add: upt_conv_Cons)
  have c64: "map (\<lambda>i. ucast ([1, 2, 3 :: 16 word] ! (i mod length [1, 2, 3 :: 16 word]))) [0..<state_size 3]
      = [1, 2, 3, 1, 2, 3, 1, 2 :: 64 word]"
    unfolding a by (simp add: upt_conv_Cons)
  note t = seed_range_cyclic [OF h, of ex32 "ex32\<lparr>e_result := e_memory ex32\<rparr>" ex64 "ex64\<lparr>e_count := 5\<rparr>",
      unfolded r c32 c64]
  show ?thesis
    using t [THEN conjunct1, rule_format, OF w(1)] t [THEN conjunct2, rule_format, OF w(2)]
    by (rule conjI)
qed

section \<open>Reading and writing the text form\<close>

lemma get_nums_length:
  "get_nums mxs is = (is', Some vs) \<Longrightarrow> length vs = length mxs"
  by (induction mxs arbitrary: "is" is' vs) (auto split: prod.splits option.splits)

lemma get_nums_append:
  "get_nums (as @ bs) is =
     (case get_nums as is of
        (is', None) \<Rightarrow> (is', None)
      | (is', Some vs) \<Rightarrow>
          (case get_nums bs is' of
             (is'', None) \<Rightarrow> (is'', None)
           | (is'', Some ws) \<Rightarrow> (is'', Some (vs @ ws))))"
  by (induction as arbitrary: "is") (auto split: prod.splits option.splits)

lemma read_words_step:
  "i < state_size Alpha \<Longrightarrow> read_words Alpha i is tmp =
     (case get_word is of
           (is', None) \<Rightarrow> (is', None)
         | (is', Some v) \<Rightarrow> read_words Alpha (i + 1) is' (tmp @ [v]))"
  by (subst read_words.simps) simp

lemma read_words_done: "\<not> i < state_size Alpha \<Longrightarrow> read_words Alpha i is tmp = (is, Some tmp)"
  by (subst read_words.simps) simp

lemma read_words_get_nums:
  "(read_words Alpha i is tmp :: istream \<times> 'a::len word list option) =
     (case get_nums (replicate (state_size Alpha - i) (word_max LENGTH('a))) is of
        (is', None) \<Rightarrow> (is', None)
      | (is', Some vs) \<Rightarrow> (is', Some (tmp @ map of_nat vs)))"
proof (induction Alpha i "is" tmp rule: read_words.induct)
  case (1 Alpha i "is" tmp)
  show ?case
  proof (cases "i < state_size Alpha")
    case False
    then show ?thesis by (simp add: read_words_done)
  next
    case True
    then have r: "replicate (state_size Alpha - i) (word_max LENGTH('a))
        = (word_max LENGTH('a)) # replicate (state_size Alpha - (i + 1)) (word_max LENGTH('a))"
      by (metis Suc_diff_Suc Suc_eq_plus1 diff_diff_left replicate_Suc)
    obtain is' r where g: "get_num (word_max LENGTH('a)) is = (is', r)" by (cases "get_num (word_max LENGTH('a)) is")
    show ?thesis
    proof (cases r)
      case None
      then show ?thesis using True g by (simp add: read_words_step r get_word_def)
    next
      case (Some v)
      have gw: "(get_word is :: istream \<times> 'a word option) = (is', Some (of_nat v))"
        using g Some by (simp add: get_word_def)
      show ?thesis
        using "1.IH" [OF True gw [symmetric] refl] True g Some gw
        by (simp add: read_words_step r split: prod.splits option.splits)
    qed
  qed
qed

lemma field_maxes_eq:
  "field_maxes wd Alpha =
     [size_max] @ replicate (state_size Alpha) (word_max wd) @ replicate (state_size Alpha) (word_max wd)
       @ [word_max wd, word_max wd, word_max wd]"
proof -
  have "2 * state_size Alpha + 3 = state_size Alpha + (state_size Alpha + Suc (Suc (Suc 0)))"
    by simp
  then have "replicate (2 * state_size Alpha + 3) (word_max wd)
      = replicate (state_size Alpha) (word_max wd) @ replicate (state_size Alpha) (word_max wd)
          @ [word_max wd, word_max wd, word_max wd]"
    by (simp only: replicate_add replicate_Suc replicate_0)
  then show ?thesis by (simp only: field_maxes_def append_Cons append_Nil)
qed

lemma nth_fields:
  assumes "length rs = n" "length ms = n"
  shows "(c # rs @ ms @ [a, b, c']) ! (1 + 2 * n) = a"
    and "(c # rs @ ms @ [a, b, c']) ! (2 + 2 * n) = b"
    and "(c # rs @ ms @ [a, b, c']) ! (3 + 2 * n) = c'"
    and "take n (drop 1 (c # rs @ ms @ [a, b, c'])) = rs"
    and "take n (drop (1 + n) (c # rs @ ms @ [a, b, c'])) = ms"
proof -
  have ms: "ms @ [a, b, c'] = ms @ a # b # [c']" by simp
  have n0: "(rs @ ms @ [a, b, c']) ! (n + n) = a"
    using assms by (simp add: nth_append)
  have n1: "(rs @ ms @ [a, b, c']) ! Suc (n + n) = b"
    using assms by (simp add: nth_append)
  have n2: "(rs @ ms @ [a, b, c']) ! Suc (Suc (n + n)) = c'"
    using assms by (simp add: nth_append)
  show "(c # rs @ ms @ [a, b, c']) ! (1 + 2 * n) = a"
    using n0 by (simp add: mult_2)
  show "(c # rs @ ms @ [a, b, c']) ! (2 + 2 * n) = b"
    using n1 by (simp add: mult_2)
  have "3 + 2 * n = Suc (Suc (Suc (n + n)))" by simp
  then show "(c # rs @ ms @ [a, b, c']) ! (3 + 2 * n) = c'"
    using n2 by (simp only: nth_Cons_Suc)
  show "take n (drop 1 (c # rs @ ms @ [a, b, c'])) = rs"
    using assms by simp
  have "drop (1 + n) (c # rs @ ms @ [a, b, c']) = ms @ [a, b, c']"
    using assms by simp
  then show "take n (drop (1 + n) (c # rs @ ms @ [a, b, c'])) = ms"
    using assms by simp
qed

lemma assign_fields_eq:
  assumes "length rs = state_size Alpha" "length ms = state_size Alpha"
  shows "assign_fields Alpha (c # rs @ ms @ [a, b, c']) x
       = commit Alpha c (map of_nat rs) (map of_nat ms) (of_nat a) (of_nat b) (of_nat c') x"
  unfolding assign_fields_def nth_fields [OF assms] by simp

lemma operator_in_get_nums:
  "(operator_in Alpha is x :: istream \<times> 'a::len word engine) =
     (case get_nums (field_maxes LENGTH('a) Alpha) is of
        (is', None) \<Rightarrow> (set_failbit is', x)
      | (is', Some vs) \<Rightarrow> (is', assign_fields Alpha vs x))"
proof -
  define m where "m = word_max LENGTH('a)"
  define n where "n = state_size Alpha"
  have rw: "\<And>is. (read_words Alpha 0 is [] :: istream \<times> 'a word list option) =
     (case get_nums (replicate n m) is of
        (is', None) \<Rightarrow> (is', None)
      | (is', Some vs) \<Rightarrow> (is', Some (map of_nat vs)))"
    by (simp add: read_words_get_nums m_def n_def split: prod.split option.split)
  have gw: "\<And>is. (get_word is :: istream \<times> 'a word option) =
     (case get_num m is of (is', v) \<Rightarrow> (is', map_option of_nat v))"
    by (simp add: get_word_def m_def)
  have fm: "field_maxes LENGTH('a) Alpha = [size_max] @ replicate n m @ replicate n m @ [m, m, m]"
    by (simp only: field_maxes_eq m_def n_def)
  obtain is1 r1 where g1: "get_num size_max is = (is1, r1)" by (cases "get_num size_max is")
  obtain is2 r2 where g2: "get_nums (replicate n m) is1 = (is2, r2)" by (cases "get_nums (replicate n m) is1")
  obtain is3 r3 where g3: "get_nums (replicate n m) is2 = (is3, r3)" by (cases "get_nums (replicate n m) is2")
  obtain is4 r4 where g4: "get_num m is3 = (is4, r4)" by (cases "get_num m is3")
  obtain is5 r5 where g5: "get_num m is4 = (is5, r5)" by (cases "get_num m is4")
  obtain is6 r6 where g6: "get_num m is5 = (is6, r6)" by (cases "get_num m is5")
  show ?thesis
  proof (cases r1)
    case None
    then show ?thesis by (simp add: operator_in_def get_size_def fm g1)
  next
    case c: (Some c)
    show ?thesis
    proof (cases r2)
      case None
      then show ?thesis by (simp add: operator_in_def get_size_def fm g1 c rw g2 get_nums_append)
    next
      case rs: (Some rs)
      have lr: "length rs = state_size Alpha"
        using get_nums_length [of "replicate n m" is1 is2 rs] g2 rs by (simp add: n_def)
      show ?thesis
      proof (cases r3)
        case None
        then show ?thesis
          by (simp add: operator_in_def get_size_def fm g1 c rw g2 rs g3 get_nums_append)
      next
        case ms: (Some ms)
        have lm: "length ms = state_size Alpha"
          using get_nums_length [of "replicate n m" is2 is3 ms] g3 ms by (simp add: n_def)
        show ?thesis
        proof (cases r4)
          case None
          then show ?thesis
            by (simp add: operator_in_def get_size_def fm g1 c rw g2 rs g3 ms gw g4 get_nums_append)
        next
          case a: (Some a)
          show ?thesis
          proof (cases r5)
            case None
            then show ?thesis
              by (simp add: operator_in_def get_size_def fm g1 c rw g2 rs g3 ms gw g4 a g5
                  get_nums_append)
          next
            case b: (Some b)
            show ?thesis
            proof (cases r6)
              case None
              then show ?thesis
                by (simp add: operator_in_def get_size_def fm g1 c rw g2 rs g3 ms gw g4 a g5 b g6
                    get_nums_append)
            next
              case (Some c')
              then show ?thesis
                using assign_fields_eq [OF lr lm, of c a b c' x]
                by (simp add: operator_in_def get_size_def fm g1 c rw g2 rs g3 ms gw g4 a g5 b g6
                    get_nums_append)
            qed
          qed
        qed
      qed
    qed
  qed
qed

lemma get_num_fail: "get_num mx is = (is', None) \<Longrightarrow> is_fail is \<or> is_fail is'"
  by (auto simp: get_num_def Let_def split: if_splits)

lemma get_num_Some: "get_num mx is = (is', Some v) \<Longrightarrow> \<not> is_fail is \<and> \<not> is_fail is'"
  by (auto simp: get_num_def Let_def split: if_splits)

lemma get_num_failed: "is_fail is \<Longrightarrow> get_num mx is = (is, None)"
  by (simp add: get_num_def)

lemma get_nums_None_fail:
  "get_nums mxs is = (is', None) \<Longrightarrow> is_fail is'"
proof (induction mxs arbitrary: "is")
  case Nil
  then show ?case by simp
next
  case (Cons mx mxs)
  obtain is1 r1 where g1: "get_num mx is = (is1, r1)" by (cases "get_num mx is")
  show ?case
  proof (cases r1)
    case None
    then have "is1 = is'" using Cons.prems g1 by simp
    moreover have "is_fail is \<Longrightarrow> is1 = is" using g1 by (simp add: get_num_failed)
    ultimately show ?thesis using get_num_fail [of mx "is" is1] g1 None by auto
  next
    case (Some v)
    then have "get_nums mxs is1 = (is', None)"
      using Cons.prems g1 by (auto split: prod.splits option.splits)
    then show ?thesis by (rule Cons.IH)
  qed
qed

lemma get_nums_Some_ok:
  "get_nums mxs is = (is', Some vs) \<Longrightarrow> mxs \<noteq> [] \<Longrightarrow> \<not> is_fail is'"
proof (induction mxs arbitrary: "is" vs)
  case Nil
  then show ?case by simp
next
  case (Cons mx mxs)
  obtain is1 r1 where g1: "get_num mx is = (is1, r1)" by (cases "get_num mx is")
  obtain v where v: "r1 = Some v" using Cons.prems(1) g1 by (cases r1) auto
  obtain vs' where r: "get_nums mxs is1 = (is', Some vs')"
    using Cons.prems(1) g1 v by (auto split: prod.splits option.splits)
  show ?case
  proof (cases "mxs = []")
    case True
    then show ?thesis using r get_num_Some [of mx "is" is1 v] g1 v by simp
  next
    case False
    then show ?thesis using Cons.IH [OF r] by simp
  qed
qed

text \<open>
  C3. When \<^verbatim>\<open>operator>>\<close> fails, that is when one of the \<open>1 + 2 * state_size + 3\<close> extractions
  fails (no number where a field should be, a number out of range, the text at its end, or a
  stream that had failed before), \<^verbatim>\<open>failbit\<close> is set on return and the engine is exactly as
  before: the locals are assigned to the engine only when every field was read, and then
  \<^verbatim>\<open>failbit\<close> is not set. For every stream, every engine and both word widths.
\<close>

theorem operator_in_atomic:
  fixes x :: "'a::len word engine"
  shows "(is_fail (fst (operator_in Alpha is x)) \<longrightarrow> snd (operator_in Alpha is x) = x)
       \<and> (snd (get_nums (field_maxes LENGTH('a) Alpha) is) = None \<longrightarrow>
            is_fail (fst (operator_in Alpha is x)) \<and> snd (operator_in Alpha is x) = x)
       \<and> (\<forall>vs. snd (get_nums (field_maxes LENGTH('a) Alpha) is) = Some vs \<longrightarrow>
            \<not> is_fail (fst (operator_in Alpha is x))
            \<and> snd (operator_in Alpha is x) = assign_fields Alpha vs x)"
proof -
  obtain is' r where g: "get_nums (field_maxes LENGTH('a) Alpha) is = (is', r)"
    by (cases "get_nums (field_maxes LENGTH('a) Alpha) is")
  have ne: "field_maxes LENGTH('a) Alpha \<noteq> []" by (simp add: field_maxes_def)
  show ?thesis
  proof (cases r)
    case None
    then show ?thesis
      using g by (simp add: operator_in_get_nums set_failbit_def)
  next
    case (Some vs)
    have "\<not> is_fail is'" using get_nums_Some_ok [OF _ ne] g Some by blast
    then show ?thesis
      using g Some by (simp add: operator_in_get_nums)
  qed
qed

theorem operator_in_atomic_witness:
  "snd (get_nums (field_maxes 32 3) (istream_of ''5 1 2 3 4 5 6 7 8 11 12 13 x'')) = None
   \<and> is_fail (fst (operator_in 3 (istream_of ''5 1 2 3 4 5 6 7 8 11 12 13 x'') ex32))
   \<and> snd (operator_in 3 (istream_of ''5 1 2 3 4 5 6 7 8 11 12 13 x'') ex32) = ex32
   \<and> snd (get_nums (field_maxes 32 3) (istream_of ''0 8 7 6 5 4 3 2 1 0 0 0 0 0 0 0 0 7 8 9''))
        = Some [0, 8, 7, 6, 5, 4, 3, 2, 1, 0, 0, 0, 0, 0, 0, 0, 0, 7, 8, 9]
   \<and> \<not> is_fail (fst (operator_in 3 (istream_of ''0 8 7 6 5 4 3 2 1 0 0 0 0 0 0 0 0 7 8 9'') ex32))
   \<and> snd (operator_in 3 (istream_of ''0 8 7 6 5 4 3 2 1 0 0 0 0 0 0 0 0 7 8 9'') ex32)
        = \<lparr>e_result = [8, 7, 6, 5, 4, 3, 2, 1], e_memory = [0, 0, 0, 0, 0, 0, 0, 0],
           e_a = 7, e_b = 8, e_c = 9, e_count = 0\<rparr>"
proof -
  have rep: "\<And>v :: nat. replicate 19 v =
      [v, v, v, v, v, v, v, v, v, v, v, v, v, v, v, v, v, v, v]"
    by (simp add: numeral_eq_Suc)
  have fm: "field_maxes 32 3 = [18446744073709551615, 4294967295, 4294967295, 4294967295,
      4294967295, 4294967295, 4294967295, 4294967295, 4294967295, 4294967295, 4294967295,
      4294967295, 4294967295, 4294967295, 4294967295, 4294967295, 4294967295, 4294967295,
      4294967295, 4294967295]"
    by (simp add: field_maxes_def state_size_def size_max_def word_max_def rep)
  have a: "snd (get_nums (field_maxes 32 3) (istream_of ''5 1 2 3 4 5 6 7 8 11 12 13 x'')) = None"
    unfolding fm
    by (simp add: get_num_def istream_of_def is_space_def is_digit_def digits_val_def
        digit_val_def Let_def)
  have b: "snd (get_nums (field_maxes 32 3) (istream_of ''0 8 7 6 5 4 3 2 1 0 0 0 0 0 0 0 0 7 8 9''))
        = Some [0, 8, 7, 6, 5, 4, 3, 2, 1, 0, 0, 0, 0, 0, 0, 0, 0, 7, 8, 9]"
    unfolding fm
    by (simp add: get_num_def istream_of_def is_space_def is_digit_def digits_val_def
        digit_val_def Let_def)
  have c: "assign_fields 3 [0, 8, 7, 6, 5, 4, 3, 2, 1, 0, 0, 0, 0, 0, 0, 0, 0, 7, 8, 9] ex32
        = \<lparr>e_result = [8, 7, 6, 5, 4, 3, 2, 1], e_memory = [0, 0, 0, 0, 0, 0, 0, 0],
           e_a = 7, e_b = 8, e_c = 9, e_count = 0\<rparr>"
    by (simp add: assign_fields_def commit_def state_size_def ex32_def upt_conv_Cons)
  have l: "LENGTH(32) = 32" by simp
  note t1 = operator_in_atomic [where 'a = 32, of 3 "istream_of ''5 1 2 3 4 5 6 7 8 11 12 13 x''" ex32,
      unfolded l, THEN conjunct2, THEN conjunct1, rule_format, OF a]
  note t2 = operator_in_atomic [where 'a = 32, of 3 "istream_of ''0 8 7 6 5 4 3 2 1 0 0 0 0 0 0 0 0 7 8 9''"
      ex32, unfolded l, THEN conjunct2, THEN conjunct2, rule_format, OF b]
  show ?thesis
    using a b t1 t2 by (simp only: c simp_thms)
qed

lemma less_10_cases:
  "d < 10 \<Longrightarrow> d = 0 \<or> d = 1 \<or> d = 2 \<or> d = 3 \<or> d = 4 \<or> d = 5 \<or> d = 6 \<or> d = 7 \<or> d = 8 \<or> d = (9::nat)"
  by arith

lemma digit_char_props:
  assumes "d < 10"
  shows "is_digit (digit_char d)" "digit_val (digit_char d) = d" "\<not> is_space (digit_char d)"
    "digit_char d \<noteq> CHR ''+''" "digit_char d \<noteq> CHR ''-''"
  using less_10_cases [OF assms]
  by (auto simp: digit_char_def is_digit_def digit_val_def is_space_def)

lemma is_space_not_digit: "is_space c \<Longrightarrow> \<not> is_digit c"
  by (auto simp: is_space_def is_digit_def)

lemma dec_small: "n < 10 \<Longrightarrow> dec n = [digit_char n]"
  by (subst dec.simps) simp

lemma dec_big: "\<not> n < 10 \<Longrightarrow> dec n = dec (n div 10) @ [digit_char (n mod 10)]"
  by (subst dec.simps) simp

lemma dec_digits: "c \<in> set (dec n) \<Longrightarrow> is_digit c"
proof (induction n arbitrary: c rule: dec.induct)
  case (1 n)
  show ?case
  proof (cases "n < 10")
    case True
    then show ?thesis using "1.prems" by (auto simp: dec_small digit_char_props)
  next
    case False
    have "n mod 10 < 10" by simp
    then have "is_digit (digit_char (n mod 10))" by (rule digit_char_props)
    then show ?thesis using "1.prems" "1.IH" [OF False] False by (auto simp: dec_big)
  qed
qed

lemma dec_ne: "dec n \<noteq> []"
  by (cases "n < 10") (simp_all add: dec_small dec_big)

lemma digits_val_snoc: "digits_val (ds @ [c]) = 10 * digits_val ds + digit_val c"
  by (simp add: digits_val_def)

lemma digits_val_dec: "digits_val (dec n) = n"
proof (induction n rule: dec.induct)
  case (1 n)
  show ?case
  proof (cases "n < 10")
    case True
    then show ?thesis by (simp add: dec_small digits_val_def digit_char_props)
  next
    case False
    have "n mod 10 < 10" by simp
    then have "digit_val (digit_char (n mod 10)) = n mod 10" by (rule digit_char_props)
    then show ?thesis using "1.IH" [OF False] False by (simp add: dec_big digits_val_snoc)
  qed
qed

lemma hd_dec: "is_digit (hd (dec n))"
  using dec_digits [of "hd (dec n)" n] dec_ne [of n] by simp

lemma takeWhile_stop: "q = [] \<or> \<not> P (hd q) \<Longrightarrow> takeWhile P q = []"
  by (cases q) auto

lemma dropWhile_stop: "q = [] \<or> \<not> P (hd q) \<Longrightarrow> dropWhile P q = q"
  by (cases q) auto

lemma get_num_dec:
  assumes "\<forall>c\<in>set p. is_space c" "n \<le> mx" "q = [] \<or> \<not> is_digit (hd q)"
  shows "get_num mx \<lparr>is_buf = p @ dec n @ q, is_fail = False\<rparr>
       = (\<lparr>is_buf = q, is_fail = False\<rparr>, Some n)"
proof -
  obtain c cs where d: "dec n = c # cs" using dec_ne [of n] by (cases "dec n") auto
  have c: "is_digit c" using hd_dec [of n] d by simp
  then have nsp: "\<not> is_space c" using is_space_not_digit by blast
  have nsg: "c \<noteq> CHR ''+''" "c \<noteq> CHR ''-''" using c by (auto simp: is_digit_def)
  have 1: "dropWhile is_space (p @ dec n @ q) = dec n @ q"
    using assms(1) nsp by (simp add: dropWhile_append2 d)
  have 2: "takeWhile is_digit (dec n @ q) = dec n"
    using dec_digits [of _ n] takeWhile_stop [of q is_digit, OF assms(3)] by (simp add: takeWhile_append2)
  have 3: "dropWhile is_digit (dec n @ q) = q"
    using dec_digits [of _ n] dropWhile_stop [of q is_digit, OF assms(3)] by (simp add: dropWhile_append2)
  have 4: "hd (dec n @ q) = c" "dec n @ q \<noteq> []" by (simp_all add: d)
  show ?thesis
    unfolding get_num_def
    using assms(2) nsg dec_ne [of n]
    by (simp add: 1 4 2 3 digits_val_dec Let_def)
qed

lemma get_nums_fields:
  assumes "list_all2 (\<le>) vs mxs" "\<forall>c\<in>set pad. is_space c" "q = [] \<or> \<not> is_digit (hd q)" "vs \<noteq> []"
  shows "get_nums mxs \<lparr>is_buf = pad @ concat (map (\<lambda>v. CHR '' '' # dec v) vs) @ q, is_fail = False\<rparr>
       = (\<lparr>is_buf = q, is_fail = False\<rparr>, Some vs)"
  using assms
proof (induction vs arbitrary: pad mxs)
  case Nil
  then show ?case by simp
next
  case (Cons v vs)
  obtain mx mxs' where m: "mxs = mx # mxs'" "v \<le> mx" "list_all2 (\<le>) vs mxs'"
    using Cons.prems(1) by (auto simp: list_all2_Cons1)
  define rest where "rest = concat (map (\<lambda>v. CHR '' '' # dec v) vs) @ q"
  have sp: "is_space CHR '' ''" by (simp add: is_space_def)
  have st: "rest = [] \<or> \<not> is_digit (hd rest)"
  proof (cases vs)
    case Nil
    then show ?thesis using Cons.prems(3) by (simp add: rest_def)
  next
    case (Cons a list)
    then show ?thesis using is_space_not_digit [OF sp] by (simp add: rest_def)
  qed
  have p: "\<forall>c\<in>set (pad @ [CHR '' '']). is_space c" using Cons.prems(2) sp by simp
  have g: "get_num mx \<lparr>is_buf = (pad @ [CHR '' '']) @ dec v @ rest, is_fail = False\<rparr>
       = (\<lparr>is_buf = rest, is_fail = False\<rparr>, Some v)"
    by (rule get_num_dec [OF p m(2) st])
  have r: "get_nums mxs' \<lparr>is_buf = rest, is_fail = False\<rparr> = (\<lparr>is_buf = q, is_fail = False\<rparr>, Some vs)"
  proof (cases "vs = []")
    case True
    then show ?thesis using m(3) by (simp add: rest_def)
  next
    case False
    show ?thesis
      using Cons.IH [OF m(3) _ Cons.prems(3) False, of "[]"] by (simp add: rest_def)
  qed
  show ?case
    using g r by (simp add: m(1) rest_def)
qed

lemma put_fold:
  "os_width os = 0 \<Longrightarrow>
   fold (\<lambda>i os. put_num (unat (xs ! i)) (put_char CHR '' '' os)) [0..<n] os
     = \<lparr>os_buf = os_buf os @ concat (map (\<lambda>i. CHR '' '' # dec (unat (xs ! i))) [0..<n]), os_width = 0\<rparr>"
proof (induction n)
  case 0
  then show ?case by simp
next
  case (Suc n)
  then show ?case by (simp add: put_num_def put_char_def)
qed

lemma map_nth_upt: "length xs = n \<Longrightarrow> map (\<lambda>i. f (xs ! i)) [0..<n] = map f xs"
  by (auto intro: nth_equalityI)

lemma serialize_eq:
  fixes e :: "'a::len word engine"
  assumes "wf_engine Alpha e"
  shows "serialize Alpha width e =
     dec (e_count e) @ replicate (width - length (dec (e_count e))) CHR '' ''
       @ concat (map (\<lambda>v. CHR '' '' # dec v) (tl (field_values e)))"
proof -
  define n where "n = state_size Alpha"
  have l: "length (e_result e) = n" "length (e_memory e) = n"
    using assms by (simp_all add: wf_engine_def n_def)
  define os1 where "os1 = put_num (e_count e) \<lparr>os_buf = [], os_width = width\<rparr>"
  have w1: "os_width os1 = 0" by (simp add: os1_def put_num_def)
  define os2 where "os2 = fold (\<lambda>i os. put_num (unat (e_result e ! i)) (put_char CHR '' '' os)) [0..<n] os1"
  have o2: "os2 = \<lparr>os_buf = os_buf os1 @ concat (map (\<lambda>v. CHR '' '' # dec v) (map unat (e_result e))), os_width = 0\<rparr>"
    unfolding os2_def put_fold [OF w1]
    using map_nth_upt [OF l(1), of "\<lambda>w. CHR '' '' # dec (unat w)"] by (simp add: comp_def)
  then have w2: "os_width os2 = 0" by simp
  define os3 where "os3 = fold (\<lambda>i os. put_num (unat (e_memory e ! i)) (put_char CHR '' '' os)) [0..<n] os2"
  have o3: "os3 = \<lparr>os_buf = os_buf os2 @ concat (map (\<lambda>v. CHR '' '' # dec v) (map unat (e_memory e))), os_width = 0\<rparr>"
    unfolding os3_def put_fold [OF w2]
    using map_nth_upt [OF l(2), of "\<lambda>w. CHR '' '' # dec (unat w)"] by (simp add: comp_def)
  have "serialize Alpha width e
      = os_buf (put_num (unat (e_c e)) (put_char CHR '' ''
          (put_num (unat (e_b e)) (put_char CHR '' ''
            (put_num (unat (e_a e)) (put_char CHR '' '' os3))))))"
    by (simp add: serialize_def operator_out_def Let_def os1_def os2_def os3_def n_def)
  also have "\<dots> = os_buf os3 @ CHR '' '' # dec (unat (e_a e)) @ CHR '' '' # dec (unat (e_b e))
      @ CHR '' '' # dec (unat (e_c e))"
    using o3 by (simp add: put_num_def put_char_def)
  finally show ?thesis
    by (simp add: o3 o2 os1_def put_num_def field_values_def)
qed

lemma commit_fold:
  fixes x :: "'w engine"
  assumes "length R = n" "length M = n" "length (e_result x) = n" "length (e_memory x) = n" "k \<le> n"
  shows "fold (\<lambda>i x. x\<lparr>e_result := (e_result x)[i := R ! i],
                              e_memory := (e_memory x)[i := M ! i]\<rparr>) [0..<k] x
       = x\<lparr>e_result := take k R @ drop k (e_result x), e_memory := take k M @ drop k (e_memory x)\<rparr>"
  using assms(5)
proof (induction k)
  case 0
  then show ?case by simp
next
  case (Suc k)
  have u: "\<And>(A :: 'w list) a. length A = n \<Longrightarrow> length a = n \<Longrightarrow>
      (take k A @ drop k a)[k := A ! k] = take (Suc k) A @ drop (Suc k) a"
  proof -
    fix A a :: "'w list"
    assume l: "length A = n" "length a = n"
    have k: "k < n" using Suc.prems by simp
    show "(take k A @ drop k a)[k := A ! k] = take (Suc k) A @ drop (Suc k) a"
      using l k by (intro nth_equalityI) (auto simp: nth_append nth_list_update less_Suc_eq)
  qed
  show ?case
    using Suc assms(1-4) by (simp add: u)
qed

lemma commit_eq:
  fixes x :: "'w engine"
  assumes "wf_engine Alpha x" "length R = state_size Alpha" "length M = state_size Alpha"
  shows "commit Alpha c R M a b c' x
       = \<lparr>e_result = R, e_memory = M, e_a = a, e_b = b, e_c = c', e_count = c\<rparr>"
proof -
  have l: "length (e_result x) = state_size Alpha" "length (e_memory x) = state_size Alpha"
    using assms(1) by (simp_all add: wf_engine_def)
  show ?thesis
    unfolding commit_def Let_def commit_fold [OF assms(2,3) l order_refl]
    using assms(2,3) l by simp
qed



lemma unat_le_word_max: "unat (w :: 'a::len word) \<le> word_max LENGTH('a)"
  proof -
  have "unat w < 2 ^ LENGTH('a)" by (rule unsigned_less)
  then show ?thesis unfolding word_max_def by linarith
qed

lemma list_all2_le_replicate:
  "\<forall>v\<in>set vs. v \<le> m \<Longrightarrow> list_all2 (\<le>) vs (replicate (length vs) (m::nat))"
  by (induction vs) auto

lemma get_nums_serialize:
  fixes e :: "'a::len word engine"
  assumes "wf_engine Alpha e" "e_count e \<le> size_max"
  shows "get_nums (field_maxes LENGTH('a) Alpha) (istream_of (serialize Alpha width e))
       = (\<lparr>is_buf = [], is_fail = False\<rparr>, Some (field_values e))"
proof -
  define vs where "vs = tl (field_values e)"
  define pad where "pad = replicate (width - length (dec (e_count e))) CHR '' ''"
  have fv: "field_values e = e_count e # vs" by (simp add: vs_def field_values_def)
  have vs: "vs = map unat (e_result e @ e_memory e @ [e_a e, e_b e, e_c e])"
    by (simp add: vs_def field_values_def)
  have ne: "vs \<noteq> []" by (simp add: vs)
  have lv: "length vs = 2 * state_size Alpha + 3"
    using assms(1) by (simp add: vs wf_engine_def)
  have all: "list_all2 (\<le>) vs (replicate (2 * state_size Alpha + 3) (word_max LENGTH('a)))"
  proof -
    have "\<forall>v\<in>set vs. v \<le> word_max LENGTH('a)"
      by (auto simp: vs unat_le_word_max)
    then have "list_all2 (\<le>) vs (replicate (length vs) (word_max LENGTH('a)))"
      by (rule list_all2_le_replicate)
    then show ?thesis by (simp only: lv)
  qed
  have sp: "\<forall>c\<in>set pad. is_space c" by (simp add: pad_def is_space_def)
  define rest where "rest = pad @ concat (map (\<lambda>v. CHR '' '' # dec v) vs) @ []"
  have st: "rest = [] \<or> \<not> is_digit (hd rest)"
  proof (cases pad)
    case Nil
    obtain v vs' where "vs = v # vs'" using ne by (cases vs) auto
    then show ?thesis using Nil by (simp add: rest_def is_digit_def)
  next
    case (Cons c cs)
    then have "is_space c" using sp by simp
    then show ?thesis using Cons is_space_not_digit by (simp add: rest_def)
  qed
  have s: "serialize Alpha width e = [] @ dec (e_count e) @ rest"
    by (simp add: serialize_eq [OF assms(1)] rest_def pad_def vs_def)
  have g1: "get_num size_max \<lparr>is_buf = [] @ dec (e_count e) @ rest, is_fail = False\<rparr>
      = (\<lparr>is_buf = rest, is_fail = False\<rparr>, Some (e_count e))"
    by (rule get_num_dec [OF _ assms(2) st]) simp
  have g2: "get_nums (replicate (2 * state_size Alpha + 3) (word_max LENGTH('a)))
        \<lparr>is_buf = rest, is_fail = False\<rparr> = (\<lparr>is_buf = [], is_fail = False\<rparr>, Some vs)"
    unfolding rest_def by (rule get_nums_fields [OF all sp _ ne]) simp
  show ?thesis
    unfolding field_maxes_def istream_of_def s fv
    using g1 g2 by simp
qed

lemma assign_field_values:
  fixes e x :: "'a::len word engine"
  assumes "wf_engine Alpha e" "wf_engine Alpha x"
  shows "assign_fields Alpha (field_values e) x = e"
proof -
  have l: "length (map unat (e_result e)) = state_size Alpha"
    "length (map unat (e_memory e)) = state_size Alpha"
    using assms(1) by (simp_all add: wf_engine_def)
  have f: "field_values e = e_count e # map unat (e_result e) @ map unat (e_memory e)
      @ [unat (e_a e), unat (e_b e), unat (e_c e)]"
    by (simp add: field_values_def)
  have m: "map of_nat (map unat (e_result e)) = e_result e"
    "map of_nat (map unat (e_memory e)) = e_memory e"
    by (simp_all add: comp_def)
  show ?thesis
    unfolding f assign_fields_eq [OF l] m
    using assms by (simp add: commit_eq wf_engine_def)
qed

lemma round_trip_gen:
  fixes e x :: "'a::len word engine"
  assumes "wf_engine Alpha e" "wf_engine Alpha x" "e_count e \<le> size_max"
  shows "operator_in Alpha (istream_of (serialize Alpha width e)) x
       = (\<lparr>is_buf = [], is_fail = False\<rparr>, e)"
  by (simp add: operator_in_get_nums get_nums_serialize [OF assms(1,3)]
      assign_field_values [OF assms(1,2)])








text \<open>
  C2. Writing an engine with \<^verbatim>\<open>operator<<\<close> and reading the text with \<^verbatim>\<open>operator>>\<close> into another
  engine \<open>x\<close> of the same word width and \<open>Alpha\<close> succeeds (no \<^verbatim>\<open>failbit\<close>) and leaves in \<open>x\<close> an
  engine equal to the original by \<^verbatim>\<open>operator==\<close>, in fact the same state. For every engine
  whose arrays have \<open>state_size\<close> words and whose \<^verbatim>\<open>count_\<close> is a \<^verbatim>\<open>size_t\<close> value (reachable or
  not), every field width the output stream had, and every word width.
\<close>

theorem round_trip:
  fixes e x :: "'a::len word engine"
  assumes "wf_engine Alpha e" "wf_engine Alpha x" "e_count e \<le> size_max"
  shows "\<exists>is' x'. operator_in Alpha (istream_of (serialize Alpha width e)) x = (is', x')
     \<and> \<not> is_fail is' \<and> operator_eq Alpha x' e \<and> x' = e"
  using round_trip_gen [OF assms, of width] by (simp add: operator_eq_refl)

theorem round_trip_witness:
  "serialize 3 0 ex32 = ''5 1 2 3 4 5 6 7 8 11 12 13 14 15 16 17 18 1 2 3''
   \<and> (\<exists>is'. operator_in 3 (istream_of ''5 1 2 3 4 5 6 7 8 11 12 13 14 15 16 17 18 1 2 3'')
          (ex32\<lparr>e_result := e_memory ex32, e_a := 0, e_count := 0\<rparr>) = (is', ex32)
        \<and> \<not> is_fail is' \<and> operator_eq 3 ex32 ex32)"
proof -
  have d: "dec (Suc 0) = ''1''" "dec 2 = ''2''" "dec 3 = ''3''" "dec 4 = ''4''" "dec 5 = ''5''"
    "dec 6 = ''6''" "dec 7 = ''7''" "dec 8 = ''8''" "dec 11 = ''11''" "dec 12 = ''12''"
    "dec 13 = ''13''" "dec 14 = ''14''" "dec 15 = ''15''" "dec 16 = ''16''" "dec 17 = ''17''"
    "dec 18 = ''18''"
    by (simp_all add: dec.simps digit_char_def)
  have s: "serialize 3 0 ex32 = ''5 1 2 3 4 5 6 7 8 11 12 13 14 15 16 17 18 1 2 3''"
    by (simp add: serialize_def operator_out_def Let_def ex32_def state_size_def upt_conv_Cons
        put_num_def put_char_def d)
  have w: "wf_engine 3 ex32" "wf_engine 3 (ex32\<lparr>e_result := e_memory ex32, e_a := 0, e_count := 0\<rparr>)"
    "e_count ex32 \<le> size_max"
    by (simp_all add: wf_engine_def ex32_def state_size_def size_max_def)
  show ?thesis
    using round_trip [OF w, of 0] by (simp add: s)
qed





end
